theory Spec2Isabelle
  imports Main "HOL-Library.Word" "HOL-Library.Multiset"
begin

unbundle bit_operations_syntax

section \<open>Machine types and the bytes of the mapping\<close>

text \<open>
  The source works on \<open>u8\<close>, \<open>u32\<close> and \<open>u64\<close> (\<open>memoryfile.h\<close>); \<open>size_t\<close> is taken
  to be 64 bits wide as well.  All arithmetic on them wraps around.
\<close>

type_synonym u8 = "8 word"
type_synonym u32 = "32 word"
type_synonym u64 = "64 word"

text \<open>
  The mapping is a flat array of bytes, indexed by the distance from its first byte.  The
  packed structs of \<open>memoryfile.h\<close> are read and written in native (little-endian)
  byte order: \<open>rd_le m a k\<close> is the number held by the \<open>k\<close> bytes from position \<open>a\<close>,
  \<open>wr_le m a k n\<close> stores the \<open>k\<close> low bytes of \<open>n\<close> there.
\<close>

fun rd_le :: "(nat \<Rightarrow> u8) \<Rightarrow> nat \<Rightarrow> nat \<Rightarrow> nat" where
  "rd_le m a 0 = 0"
| "rd_le m a (Suc k) = unat (m a) + 256 * rd_le m (Suc a) k"

fun wr_le :: "(nat \<Rightarrow> u8) \<Rightarrow> nat \<Rightarrow> nat \<Rightarrow> nat \<Rightarrow> (nat \<Rightarrow> u8)" where
  "wr_le m a 0 n = m"
| "wr_le m a (Suc k) n = wr_le (m(a := of_nat n)) (Suc a) k (n div 256)"

definition rd32 :: "(nat \<Rightarrow> u8) \<Rightarrow> nat \<Rightarrow> u32" where
  "rd32 m a = of_nat (rd_le m a 4)"

definition wr32 :: "(nat \<Rightarrow> u8) \<Rightarrow> nat \<Rightarrow> u32 \<Rightarrow> (nat \<Rightarrow> u8)" where
  "wr32 m a v = wr_le m a 4 (unat v)"

definition rd64 :: "(nat \<Rightarrow> u8) \<Rightarrow> nat \<Rightarrow> u64" where
  "rd64 m a = of_nat (rd_le m a 8)"

definition wr64 :: "(nat \<Rightarrow> u8) \<Rightarrow> nat \<Rightarrow> u64 \<Rightarrow> (nat \<Rightarrow> u8)" where
  "wr64 m a v = wr_le m a 8 (unat v)"

section \<open>The handle and the header\<close>

text \<open>
  \<open>memfile_t\<close>.  The field \<open>header\<close> of the source always equals \<open>mmap_base\<close> and is not
  kept apart.  \<open>mem\<close> holds the bytes of the shared mapping, which are the bytes of the
  file; \<open>file_len\<close> is the length of the file behind \<open>fd\<close>, which \<open>ftruncate\<close> changes.
\<close>

record memfile =
  fd :: int
  path :: string
  mmap_base :: u64
  mmap_size :: u64
  closed :: bool
  mem :: "nat \<Rightarrow> u8"
  file_len :: u64

definition MEMFILE_MAGIC :: u32 where
  "MEMFILE_MAGIC = 0x4D454D46"

definition MEMFILE_VERSION :: u32 where
  "MEMFILE_VERSION = 1"

text \<open>\<open>sizeof(memfile_header_t)\<close>, \<open>sizeof(memfile_free_t)\<close>, \<open>sizeof(memfile_alloc_t)\<close>.\<close>

definition sizeof_header :: u64 where
  "sizeof_header = 32"

definition sizeof_free :: u64 where
  "sizeof_free = 16"

definition sizeof_alloc :: u64 where
  "sizeof_alloc = 8"

text \<open>
  \<open>memfile_header_t\<close> lies at offset 0 of the mapping: \<open>magic\<close> at byte 0, \<open>version\<close> at 4,
  \<open>file_size\<close> at 8, \<open>allocated\<close> at 16, \<open>free_list_head\<close> at 24.  \<open>mf->header->f\<close> reads
  and \<open>mf->header->f = v\<close> writes these bytes.
\<close>

definition hdr_magic :: "memfile \<Rightarrow> u32" where
  "hdr_magic mf = rd32 (mem mf) 0"

definition hdr_version :: "memfile \<Rightarrow> u32" where
  "hdr_version mf = rd32 (mem mf) 4"

definition hdr_file_size :: "memfile \<Rightarrow> u64" where
  "hdr_file_size mf = rd64 (mem mf) 8"

definition hdr_allocated :: "memfile \<Rightarrow> u64" where
  "hdr_allocated mf = rd64 (mem mf) 16"

definition hdr_free_list_head :: "memfile \<Rightarrow> u64" where
  "hdr_free_list_head mf = rd64 (mem mf) 24"

definition set_hdr_magic :: "memfile \<Rightarrow> u32 \<Rightarrow> memfile" where
  "set_hdr_magic mf v = mf\<lparr>mem := wr32 (mem mf) 0 v\<rparr>"

definition set_hdr_version :: "memfile \<Rightarrow> u32 \<Rightarrow> memfile" where
  "set_hdr_version mf v = mf\<lparr>mem := wr32 (mem mf) 4 v\<rparr>"

definition set_hdr_file_size :: "memfile \<Rightarrow> u64 \<Rightarrow> memfile" where
  "set_hdr_file_size mf v = mf\<lparr>mem := wr64 (mem mf) 8 v\<rparr>"

definition set_hdr_allocated :: "memfile \<Rightarrow> u64 \<Rightarrow> memfile" where
  "set_hdr_allocated mf v = mf\<lparr>mem := wr64 (mem mf) 16 v\<rparr>"

definition set_hdr_free_list_head :: "memfile \<Rightarrow> u64 \<Rightarrow> memfile" where
  "set_hdr_free_list_head mf v = mf\<lparr>mem := wr64 (mem mf) 24 v\<rparr>"

section \<open>Pointers into the mapping\<close>

text \<open>
  A pointer is \<open>NULL\<close> or an address.  \<open>return -1\<close> of the read and write helpers is the
  error \<open>OutOfBounds\<close>.  Dereferencing \<open>NULL\<close>, or touching bytes that do not lie in the
  mapping, is the error \<open>Fault\<close>: the C program has no defined behaviour there.
\<close>

datatype ptr = NULL | Ptr u64

datatype error = OutOfBounds | Fault

definition memfile_ptr :: "memfile \<Rightarrow> u64 \<Rightarrow> ptr" where
  "memfile_ptr mf offset =
     (if offset = 0 \<or> offset \<ge> mmap_size mf then NULL
      else Ptr (mmap_base mf + offset))"

text \<open>The position in the mapping that an address stands for.\<close>

definition ptr_pos :: "memfile \<Rightarrow> u64 \<Rightarrow> nat" where
  "ptr_pos mf a = unat (a - mmap_base mf)"

text \<open>\<open>p->field\<close> for a \<open>u64\<close> field at byte \<open>k\<close> of the struct \<open>p\<close> points to.\<close>

definition load_u64 :: "memfile \<Rightarrow> ptr \<Rightarrow> nat \<Rightarrow> error + u64" where
  "load_u64 mf p k =
     (case p of
        NULL \<Rightarrow> Inl Fault
      | Ptr a \<Rightarrow>
          if ptr_pos mf a + k + 8 \<le> unat (mmap_size mf)
          then Inr (rd64 (mem mf) (ptr_pos mf a + k))
          else Inl Fault)"

definition store_u64 :: "memfile \<Rightarrow> ptr \<Rightarrow> nat \<Rightarrow> u64 \<Rightarrow> error + memfile" where
  "store_u64 mf p k v =
     (case p of
        NULL \<Rightarrow> Inl Fault
      | Ptr a \<Rightarrow>
          if ptr_pos mf a + k + 8 \<le> unat (mmap_size mf)
          then Inr (mf\<lparr>mem := wr64 (mem mf) (ptr_pos mf a + k) v\<rparr>)
          else Inl Fault)"

section \<open>Direct read and write at an offset\<close>

text \<open>
  \<open>memfile_read\<close> returns the \<open>len\<close> bytes copied into \<open>buf\<close>; \<open>memfile_write\<close> takes the
  bytes of \<open>buf\<close> as a function of the index and returns the handle with the mapping
  updated.  \<open>offset + len\<close> is the wrapping sum of the source.  \<open>memcpy\<close> over bytes that
  leave the mapping is a \<open>Fault\<close>.
\<close>

definition memfile_read :: "memfile \<Rightarrow> u64 \<Rightarrow> u64 \<Rightarrow> error + u8 list" where
  "memfile_read mf offset len =
     (if offset + len > mmap_size mf then Inl OutOfBounds
      else case memfile_ptr mf offset of
        NULL \<Rightarrow> Inl OutOfBounds
      | Ptr src \<Rightarrow>
          if ptr_pos mf src + unat len \<le> unat (mmap_size mf)
          then Inr (map (\<lambda>i. mem mf (ptr_pos mf src + i)) [0..<unat len])
          else Inl Fault)"

definition memfile_write :: "memfile \<Rightarrow> u64 \<Rightarrow> (nat \<Rightarrow> u8) \<Rightarrow> u64 \<Rightarrow> error + memfile" where
  "memfile_write mf offset buf len =
     (if offset + len > mmap_size mf then Inl OutOfBounds
      else case memfile_ptr mf offset of
        NULL \<Rightarrow> Inl OutOfBounds
      | Ptr dst \<Rightarrow>
          if ptr_pos mf dst + unat len \<le> unat (mmap_size mf)
          then Inr (mf\<lparr>mem := (\<lambda>p. if ptr_pos mf dst \<le> p \<and> p < ptr_pos mf dst + unat len
                                    then buf (p - ptr_pos mf dst) else mem mf p)\<rparr>)
          else Inl Fault)"

section \<open>The operating system\<close>

text \<open>
  What the system calls of one run answer: whether \<open>calloc\<close>, \<open>ftruncate\<close> and \<open>malloc\<close>
  succeed, the descriptor \<open>open\<close> returns (negative on failure), and the base address
  \<open>mmap\<close> and \<open>mremap\<close> return (\<open>None\<close> is \<open>MAP_FAILED\<close>).
\<close>

record sys =
  calloc_ok :: bool
  open_result :: int
  ftruncate_ok :: bool
  mmap_result :: "u64 option"
  mremap_result :: "u64 option"
  malloc_ok :: bool

text \<open>The file at the path: absent, or present with its length and bytes.\<close>

datatype file_state = Absent | File u64 "nat \<Rightarrow> u8"

section \<open>File growth\<close>

text \<open>
  \<open>memfile_remap\<close> and \<open>memfile_ensure_space\<close> return the \<open>int\<close> of the source together
  with the handle.  \<open>ftruncate\<close> sets the length of the file: the bytes below both the
  old and the new length stay, the bytes from the new length on are discarded, and bytes
  it adds read as zero.
\<close>

definition memfile_remap :: "memfile \<Rightarrow> sys \<Rightarrow> u64 \<Rightarrow> int \<times> memfile" where
  "memfile_remap mf os new_size =
     (if \<not> ftruncate_ok os then (-1, mf)
      else
        let mf1 = mf\<lparr>file_len := new_size,
                      mem := (\<lambda>p. if p < unat (file_len mf) \<and> p < unat new_size
                                  then mem mf p else 0)\<rparr>
        in case mremap_result os of
             None \<Rightarrow> (-1, mf1)
           | Some new_base \<Rightarrow>
               let mf2 = mf1\<lparr>mmap_base := new_base, mmap_size := new_size\<rparr>
               in (0, set_hdr_file_size mf2 new_size))"

definition memfile_ensure_space :: "memfile \<Rightarrow> sys \<Rightarrow> u64 \<Rightarrow> int \<times> memfile" where
  "memfile_ensure_space mf os needed =
     (if hdr_allocated mf + needed \<le> hdr_file_size mf then (0, mf)
      else
        let new_size = mmap_size mf * 2;
            new_size = (if new_size < hdr_allocated mf + needed
                        then hdr_allocated mf + needed + 4096 else new_size)
        in memfile_remap mf os new_size)"

section \<open>Allocation\<close>

text \<open>
  The body of the first-fit loop once a block with \<open>free_block->size >= total_size\<close> is
  found: split or use the whole block, then write the allocation header.  The loads and
  stores are in the order of the source.
\<close>

definition alloc_from_block ::
  "memfile \<Rightarrow> u64 \<Rightarrow> u64 \<Rightarrow> u64 \<Rightarrow> ptr \<Rightarrow> u64 \<Rightarrow> error + memfile \<times> u64" where
  "alloc_from_block mf total_size prev_offset free_offset free_block fsize =
     (let remaining = fsize - total_size in
      case
        (if remaining \<ge> sizeof_free + 8 then
           (let new_free_offset = free_offset + total_size;
                new_free = memfile_ptr mf new_free_offset
            in case store_u64 mf new_free 0 remaining of
                 Inl e \<Rightarrow> Inl e
               | Inr mf1 \<Rightarrow>
                  (case load_u64 mf1 free_block 8 of
                     Inl e \<Rightarrow> Inl e
                   | Inr nxt \<Rightarrow>
                      (case store_u64 mf1 new_free 8 nxt of
                         Inl e \<Rightarrow> Inl e
                       | Inr mf2 \<Rightarrow>
                           if prev_offset = 0
                           then Inr (set_hdr_free_list_head mf2 new_free_offset, total_size)
                           else
                             (case store_u64 mf2 (memfile_ptr mf2 prev_offset) 8 new_free_offset of
                                Inl e \<Rightarrow> Inl e
                              | Inr mf3 \<Rightarrow> Inr (mf3, total_size)))))
         else
           (case load_u64 mf free_block 8 of
              Inl e \<Rightarrow> Inl e
            | Inr nxt \<Rightarrow>
                if prev_offset = 0
                then Inr (set_hdr_free_list_head mf nxt, fsize)
                else
                  (case store_u64 mf (memfile_ptr mf prev_offset) 8 nxt of
                     Inl e \<Rightarrow> Inl e
                   | Inr mf1 \<Rightarrow> Inr (mf1, fsize))))
      of
        Inl e \<Rightarrow> Inl e
      | Inr (mf', total') \<Rightarrow>
          (case store_u64 mf' (memfile_ptr mf' free_offset) 0 total' of
             Inl e \<Rightarrow> Inl e
           | Inr mf'' \<Rightarrow> Inr (mf'', free_offset + sizeof_alloc)))"

text \<open>
  The \<open>while (free_offset != 0)\<close> loop.  It need not end (a cyclic list with no block
  large enough): not returning is \<open>None\<close>.  \<open>Some (Inr None)\<close> is leaving the loop with
  no suitable block, \<open>Some (Inr (Some (mf', p)))\<close> is \<open>return p\<close> from inside it.
\<close>

partial_function (option) alloc_loop ::
  "memfile \<Rightarrow> u64 \<Rightarrow> u64 \<Rightarrow> u64 \<Rightarrow> (error + (memfile \<times> u64) option) option" where
  "alloc_loop mf total_size prev_offset free_offset =
     (if free_offset = 0 then Some (Inr None)
      else
        let free_block = memfile_ptr mf free_offset
        in case load_u64 mf free_block 0 of
             Inl e \<Rightarrow> Some (Inl e)
           | Inr fsize \<Rightarrow>
               if fsize \<ge> total_size
               then (case alloc_from_block mf total_size prev_offset free_offset free_block fsize of
                       Inl e \<Rightarrow> Some (Inl e)
                     | Inr r \<Rightarrow> Some (Inr (Some r)))
               else (case load_u64 mf free_block 8 of
                       Inl e \<Rightarrow> Some (Inl e)
                     | Inr nxt \<Rightarrow> alloc_loop mf total_size free_offset nxt))"

declare alloc_loop.simps [code]

definition memfile_alloc :: "memfile \<Rightarrow> sys \<Rightarrow> u64 \<Rightarrow> (error + memfile \<times> u64) option" where
  "memfile_alloc mf os sz =
     (let total_size = sz + sizeof_alloc;
          total_size = (total_size + 7) AND NOT 7
      in case alloc_loop mf total_size 0 (hdr_free_list_head mf) of
           None \<Rightarrow> None
         | Some (Inl e) \<Rightarrow> Some (Inl e)
         | Some (Inr (Some r)) \<Rightarrow> Some (Inr r)
         | Some (Inr None) \<Rightarrow>
             (let (rc, mf1) = memfile_ensure_space mf os total_size
              in  if rc < 0 then Some (Inr (mf1, 0))
                  else
                    let offset = hdr_allocated mf1
                    in case store_u64 mf1 (memfile_ptr mf1 offset) 0 total_size of
                         Inl e \<Rightarrow> Some (Inl e)
                       | Inr mf2 \<Rightarrow>
                           Some (Inr (set_hdr_allocated mf2 (hdr_allocated mf2 + total_size),
                                      offset + sizeof_alloc))))"

definition memfile_free :: "memfile \<Rightarrow> u64 \<Rightarrow> error + memfile" where
  "memfile_free mf offset =
     (if offset = 0 then Inr mf
      else
        let alloc_offset = offset - sizeof_alloc;
            alloc = memfile_ptr mf alloc_offset
        in case load_u64 mf alloc 0 of
             Inl e \<Rightarrow> Inl e
           | Inr s \<Rightarrow>
              (case store_u64 mf alloc 0 s of
                 Inl e \<Rightarrow> Inl e
               | Inr mf1 \<Rightarrow>
                  (case store_u64 mf1 alloc 8 (hdr_free_list_head mf1) of
                     Inl e \<Rightarrow> Inl e
                   | Inr mf2 \<Rightarrow> Inr (set_hdr_free_list_head mf2 alloc_offset))))"

section \<open>Coalescing\<close>

text \<open>An entry of the temporary array \<open>blocks\<close>: \<open>(offset, size)\<close>.\<close>

type_synonym block = "u64 \<times> u64"

text \<open>
  The counting loop follows \<open>next\<close> until it reads 0, so on a cyclic list it does not
  return (\<open>None\<close>); \<open>free_count\<close> is a \<open>u32\<close> and wraps.
\<close>

partial_function (option) count_loop :: "memfile \<Rightarrow> u32 \<Rightarrow> u64 \<Rightarrow> (error + u32) option" where
  "count_loop mf free_count offset =
     (if offset = 0 then Some (Inr free_count)
      else case load_u64 mf (memfile_ptr mf offset) 8 of
             Inl e \<Rightarrow> Some (Inl e)
           | Inr nxt \<Rightarrow> count_loop mf (free_count + 1) nxt)"

declare count_loop.simps [code]

text \<open>
  \<open>for (i = 0; i < free_count; i++)\<close> filling \<open>blocks[i]\<close>; the first argument counts the
  iterations still to run.
\<close>

fun collect_loop :: "memfile \<Rightarrow> nat \<Rightarrow> u64 \<Rightarrow> error + block list" where
  "collect_loop mf 0 offset = Inr []"
| "collect_loop mf (Suc n) offset =
     (let block = memfile_ptr mf offset
      in case load_u64 mf block 0 of
           Inl e \<Rightarrow> Inl e
         | Inr s \<Rightarrow>
            (case load_u64 mf block 8 of
               Inl e \<Rightarrow> Inl e
             | Inr nxt \<Rightarrow>
                (case collect_loop mf n nxt of
                   Inl e \<Rightarrow> Inl e
                 | Inr blocks \<Rightarrow> Inr ((offset, s) # blocks))))"

text \<open>
  The insertion sort, on the array as a list with the indices of the source.  The inner
  \<open>while (j >= 0 && blocks[j].offset > key_off)\<close> returns the array and the final \<open>j\<close>.
  Every index used lies below \<open>free_count\<close>, the length of the list.
\<close>

function shift_loop :: "block list \<Rightarrow> int \<Rightarrow> u64 \<Rightarrow> block list \<times> int" where
  "shift_loop blocks j key_off =
     (if j \<ge> 0 \<and> fst (blocks ! nat j) > key_off
      then shift_loop (blocks[nat (j + 1) := blocks ! nat j]) (j - 1) key_off
      else (blocks, j))"
  by pat_completeness auto
termination
  by (relation "measure (\<lambda>(blocks, j, key_off). nat (j + 1))") auto

declare shift_loop.simps [simp del]

function sort_loop :: "block list \<Rightarrow> nat \<Rightarrow> nat \<Rightarrow> block list" where
  "sort_loop blocks i free_count =
     (if i < free_count then
        let key_off = fst (blocks ! i);
            key_size = snd (blocks ! i);
            r = shift_loop blocks (int i - 1) key_off
        in sort_loop ((fst r)[nat (snd r + 1) := (key_off, key_size)]) (i + 1) free_count
      else blocks)"
  by pat_completeness auto
termination
  by (relation "measure (\<lambda>(blocks, i, free_count). free_count - i)") auto

declare sort_loop.simps [simp del]

text \<open>The merge sweep; it returns the array and \<open>write_idx\<close>.\<close>

function merge_loop :: "block list \<Rightarrow> nat \<Rightarrow> nat \<Rightarrow> nat \<Rightarrow> block list \<times> nat" where
  "merge_loop blocks i write_idx free_count =
     (if i < free_count then
        if write_idx > 0 \<and>
           fst (blocks ! (write_idx - 1)) + snd (blocks ! (write_idx - 1)) = fst (blocks ! i)
        then merge_loop
               (blocks[write_idx - 1 :=
                  (fst (blocks ! (write_idx - 1)),
                   snd (blocks ! (write_idx - 1)) + snd (blocks ! i))])
               (i + 1) write_idx free_count
        else merge_loop (if write_idx \<noteq> i then blocks[write_idx := blocks ! i] else blocks)
               (i + 1) (write_idx + 1) free_count
      else (blocks, write_idx))"
  by pat_completeness auto
termination
  by (relation "measure (\<lambda>(blocks, i, write_idx, free_count). free_count - i)") auto

declare merge_loop.simps [simp del]

text \<open>Rebuilding the list in the mapping from the first \<open>write_idx\<close> entries.\<close>

function rebuild_loop :: "memfile \<Rightarrow> block list \<Rightarrow> nat \<Rightarrow> nat \<Rightarrow> error + memfile" where
  "rebuild_loop mf blocks i write_idx =
     (if i < write_idx then
        let block = memfile_ptr mf (fst (blocks ! i))
        in case store_u64 mf block 0 (snd (blocks ! i)) of
             Inl e \<Rightarrow> Inl e
           | Inr mf1 \<Rightarrow>
              (case store_u64 mf1 block 8
                      (if i + 1 < write_idx then fst (blocks ! (i + 1)) else 0) of
                 Inl e \<Rightarrow> Inl e
               | Inr mf2 \<Rightarrow> rebuild_loop mf2 blocks (i + 1) write_idx)
      else Inr mf)"
  by pat_completeness auto
termination
  by (relation "measure (\<lambda>(mf, blocks, i, write_idx). write_idx - i)") auto

declare rebuild_loop.simps [simp del]

text \<open>
  \<open>memfile_coalesce\<close>.  When \<open>malloc\<close> fails \<open>blocks\<close> is \<open>NULL\<close> and the first store to it
  faults.  The index \<open>int j = i - 1\<close> of the sort holds \<open>i - 1\<close> only up to \<open>2^31 - 1\<close>:
  with more than \<open>2^31 + 1\<close> entries \<open>blocks[j + 1]\<close> leaves the array, which is a fault
  as well.
\<close>

definition memfile_coalesce :: "memfile \<Rightarrow> sys \<Rightarrow> (error + memfile) option" where
  "memfile_coalesce mf os =
     (if hdr_free_list_head mf = 0 then Some (Inr mf)
      else case count_loop mf 0 (hdr_free_list_head mf) of
             None \<Rightarrow> None
           | Some (Inl e) \<Rightarrow> Some (Inl e)
           | Some (Inr free_count) \<Rightarrow>
               if free_count < 2 then Some (Inr mf)
               else if \<not> malloc_ok os \<or> unat free_count > 2 ^ 31 + 1 then Some (Inl Fault)
               else
                 (case collect_loop mf (unat free_count) (hdr_free_list_head mf) of
                    Inl e \<Rightarrow> Some (Inl e)
                  | Inr blocks \<Rightarrow>
                      let blocks1 = sort_loop blocks 1 (unat free_count);
                          r = merge_loop blocks1 0 0 (unat free_count);
                          mf1 = set_hdr_free_list_head mf (fst (fst r ! 0))
                      in Some (rebuild_loop mf1 (fst r) 0 (snd r))))"

section \<open>Opening\<close>

text \<open>
  \<open>stat\<close> on the path: \<open>st_size\<close>, and the bytes of the file.  \<open>memfile_open\<close> returns the
  handle (\<open>None\<close> is \<open>NULL\<close>) and the file at the path afterwards.  \<open>open\<close> with \<open>O_CREAT\<close>
  leaves an empty file where there was none; \<open>unlink\<close> removes it.
\<close>

definition st_size :: "file_state \<Rightarrow> u64" where
  "st_size fs = (case fs of Absent \<Rightarrow> 0 | File n bytes \<Rightarrow> n)"

definition file_bytes :: "file_state \<Rightarrow> nat \<Rightarrow> u8" where
  "file_bytes fs = (case fs of Absent \<Rightarrow> (\<lambda>p. 0) | File n bytes \<Rightarrow> bytes)"

definition memfile_open :: "file_state \<Rightarrow> sys \<Rightarrow> string \<Rightarrow> u64 \<Rightarrow> memfile option \<times> file_state" where
  "memfile_open fs os pth initial_size =
     (if \<not> calloc_ok os then (None, fs)
      else
        let exists = (fs \<noteq> Absent \<and> st_size fs > 0)
        in if exists then
             (if open_result os < 0 then (None, fs)
              else case mmap_result os of
                     None \<Rightarrow> (None, fs)
                   | Some base \<Rightarrow>
                       let mf = \<lparr>fd = open_result os, path = pth, mmap_base = base,
                                 mmap_size = st_size fs, closed = False,
                                 mem = file_bytes fs, file_len = st_size fs\<rparr>
                       in if hdr_magic mf \<noteq> MEMFILE_MAGIC then (None, fs)
                          else (Some mf, fs))
           else
             (if open_result os < 0 then (None, fs)
              else
                let fs1 = File 0 (\<lambda>p. 0);
                    initial_size = (if initial_size < sizeof_header + 64 then 4096
                                    else initial_size)
                in if \<not> ftruncate_ok os then (None, fs1)
                   else case mmap_result os of
                          None \<Rightarrow> (None, Absent)
                        | Some base \<Rightarrow>
                            let mf = \<lparr>fd = open_result os, path = pth, mmap_base = base,
                                      mmap_size = initial_size, closed = False,
                                      mem = (\<lambda>p. 0), file_len = initial_size\<rparr>;
                                mf = set_hdr_magic mf MEMFILE_MAGIC;
                                mf = set_hdr_version mf MEMFILE_VERSION;
                                mf = set_hdr_file_size mf initial_size;
                                mf = set_hdr_allocated mf sizeof_header;
                                mf = set_hdr_free_list_head mf 0
                            in (Some mf, File initial_size (mem mf))))"

section \<open>Free lists\<close>

text \<open>
  \<open>free_chain mf off bs\<close>: following \<open>next\<close> from \<open>off\<close> visits exactly the nodes \<open>bs\<close>
  (offset and stored size, in list order) and then reads 0; every node lies in the
  mapping with its 16 bytes.
\<close>

fun free_chain :: "memfile \<Rightarrow> u64 \<Rightarrow> block list \<Rightarrow> bool" where
  "free_chain mf off [] = (off = 0)"
| "free_chain mf off (b # bs) =
     (off = fst b \<and> off \<noteq> 0 \<and> unat off + 16 \<le> unat (mmap_size mf) \<and>
      rd64 (mem mf) (unat off) = snd b \<and>
      free_chain mf (rd64 (mem mf) (unat off + 8)) bs)"

definition block_end :: "block \<Rightarrow> nat" where
  "block_end b = unat (fst b) + unat (snd b)"

definition apart :: "block \<Rightarrow> block \<Rightarrow> bool" where
  "apart b c = (block_end b \<le> unat (fst c) \<or> block_end c \<le> unat (fst b))"

text \<open>
  A well-formed free list: a finite chain ended by 0, every block past the header, at
  least 16 bytes long and below \<open>allocated\<close>, which lies in the mapping, no two blocks
  overlapping, and fewer than \<open>2^31\<close> of them.
\<close>

definition wf_free_list :: "memfile \<Rightarrow> block list \<Rightarrow> bool" where
  "wf_free_list mf bs =
     (free_chain mf (hdr_free_list_head mf) bs \<and>
      unat (hdr_allocated mf) \<le> unat (mmap_size mf) \<and>
      list_all (\<lambda>b. 32 \<le> unat (fst b) \<and> 16 \<le> unat (snd b) \<and>
                     block_end b \<le> unat (hdr_allocated mf)) bs \<and>
      sorted_wrt apart bs \<and>
      length bs < 2 ^ 31)"

text \<open>Each block ends strictly below the start of every later one.\<close>

definition ascending_gaps :: "block list \<Rightarrow> bool" where
  "ascending_gaps bs = sorted_wrt (\<lambda>a b. block_end a < unat (fst b)) bs"

text \<open>What the merge sweep computes on a list: \<open>b\<close> is the entry being extended.\<close>

fun merge_adj :: "block \<Rightarrow> block list \<Rightarrow> block list" where
  "merge_adj b [] = [b]"
| "merge_adj b (c # cs) =
     (if fst b + snd b = fst c then merge_adj (fst b, snd b + snd c) cs
      else b # merge_adj c cs)"

text \<open>What the rebuild loop writes for a list of entries.\<close>

fun write_nodes :: "(nat \<Rightarrow> u8) \<Rightarrow> block list \<Rightarrow> (nat \<Rightarrow> u8)" where
  "write_nodes m [] = m"
| "write_nodes m (b # bs) =
     write_nodes
       (wr64 (wr64 m (unat (fst b)) (snd b)) (unat (fst b) + 8)
          (case bs of [] \<Rightarrow> 0 | c # cs \<Rightarrow> fst c))
       bs"

section \<open>Concrete states\<close>

text \<open>System calls that all succeed.\<close>

definition sys_ok :: sys where
  "sys_ok = \<lparr>calloc_ok = True, open_result = 3, ftruncate_ok = True,
             mmap_result = Some 0x7F0000000000, mremap_result = Some 0x7F0000100000,
             malloc_ok = True\<rparr>"

text \<open>The handle of a file just created with 4096 bytes.\<close>

definition fresh_file :: memfile where
  "fresh_file =
     set_hdr_free_list_head
       (set_hdr_allocated
          (set_hdr_file_size
             (set_hdr_version
                (set_hdr_magic
                   \<lparr>fd = 3, path = ''t1'', mmap_base = 0x7F0000000000, mmap_size = 4096,
                    closed = False, mem = (\<lambda>p. 0), file_len = 4096\<rparr>
                   MEMFILE_MAGIC)
                MEMFILE_VERSION)
             4096)
          sizeof_header)
       0"

definition put_free_node :: "memfile \<Rightarrow> u64 \<Rightarrow> u64 \<Rightarrow> u64 \<Rightarrow> memfile" where
  "put_free_node mf off s nxt =
     mf\<lparr>mem := wr64 (wr64 (mem mf) (unat off) s) (unat off + 8) nxt\<rparr>"

text \<open>
  Three blocks of 112 bytes at 32, 144 and 256, freed in the order 144, 32, 256: the list
  runs 256, 32, 144.
\<close>

definition three_free :: memfile where
  "three_free =
     set_hdr_free_list_head
       (set_hdr_allocated
          (put_free_node (put_free_node (put_free_node fresh_file 144 112 0) 32 112 144)
             256 112 32)
          368)
       256"

text \<open>One live block of 112 bytes at 32, as \<open>alloc(100)\<close> leaves it on the fresh file.\<close>

definition one_live :: memfile where
  "one_live = set_hdr_allocated (fresh_file\<lparr>mem := wr64 (mem fresh_file) 32 112\<rparr>) 144"

text \<open>
  A live block of 4056 bytes at 32, as \<open>alloc(4048)\<close> leaves the fresh file, and then
  also a live block of 8 bytes at 4088, as \<open>alloc(0)\<close> leaves it after that: the block
  ends where the mapping ends.
\<close>

definition almost_full :: memfile where
  "almost_full = set_hdr_allocated (fresh_file\<lparr>mem := wr64 (mem fresh_file) 32 4056\<rparr>) 4088"

definition edge_small :: memfile where
  "edge_small = set_hdr_allocated (almost_full\<lparr>mem := wr64 (mem almost_full) 4088 8\<rparr>) 4096"

text \<open>Two live blocks of 8 bytes at 32 and 40, as \<open>alloc(0)\<close> twice leaves the fresh file.\<close>

definition two_small :: memfile where
  "two_small =
     set_hdr_allocated
       (set_hdr_allocated (fresh_file\<lparr>mem := wr64 (mem fresh_file) 32 8\<rparr>) 40
          \<lparr>mem := wr64 (mem (set_hdr_allocated (fresh_file\<lparr>mem := wr64 (mem fresh_file) 32 8\<rparr>) 40))
                    40 8\<rparr>)
       48"

section \<open>Bytes\<close>

lemma wr_le_outside: "p < a \<or> a + k \<le> p \<Longrightarrow> wr_le m a k n p = m p"
  by (induction k arbitrary: m a n) auto

lemma rd_le_cong: "(\<And>i. i < k \<Longrightarrow> m (a + i) = m' (a + i)) \<Longrightarrow> rd_le m a k = rd_le m' a k"
proof (induction k arbitrary: a)
  case 0
  then show ?case by simp
next
  case (Suc k)
  have "m a = m' a" using Suc.prems[of 0] by simp
  moreover have "rd_le m (Suc a) k = rd_le m' (Suc a) k"
    using Suc.prems[of "Suc i" for i] by (intro Suc.IH) simp
  ultimately show ?case by simp
qed

lemma rd_le_bound: "rd_le m a k < 256 ^ k"
proof (induction k arbitrary: a)
  case 0 show ?case by simp
next
  case (Suc k)
  have "unat (m a) < 256" using unsigned_less[of "m a"] by simp
  moreover have "rd_le m (Suc a) k < 256 ^ k" by (rule Suc.IH)
  ultimately show ?case by simp
qed

lemma rd_le_wr_le: "rd_le (wr_le m a k n) a k = n mod 256 ^ k"
proof (induction k arbitrary: m a n)
  case 0 show ?case by simp
next
  case (Suc k)
  define m' where "m' = m(a := (of_nat n :: u8))"
  have "wr_le m' (Suc a) k (n div 256) a = m' a"
    by (simp add: wr_le_outside)
  then have 1: "unat (wr_le m' (Suc a) k (n div 256) a) = n mod 256"
    by (simp add: m'_def unat_of_nat)
  have 2: "rd_le (wr_le m' (Suc a) k (n div 256)) (Suc a) k = (n div 256) mod 256 ^ k"
    by (rule Suc.IH)
  have "rd_le (wr_le m a (Suc k) n) a (Suc k) = n mod 256 + 256 * ((n div 256) mod 256 ^ k)"
    using 1 2 by (simp add: m'_def)
  also have "\<dots> = n mod 256 ^ Suc k"
    by (simp add: mod_mult2_eq)
  finally show ?case .
qed

lemma wr_le_rd_le: "wr_le m a k (rd_le m a k) = m"
proof (induction k arbitrary: m a)
  case 0 show ?case by simp
next
  case (Suc k)
  let ?r = "rd_le m (Suc a) k"
  have "unat (of_nat (unat (m a) + 256 * ?r) :: u8) = (unat (m a) + 256 * ?r) mod 2 ^ LENGTH(8)"
    by (rule unat_of_nat)
  also have "\<dots> = unat (m a)"
    using unsigned_less[of "m a", where 'a=nat] by simp
  finally have "unat (of_nat (unat (m a) + 256 * ?r) :: u8) = unat (m a)" .
  then have "(of_nat (unat (m a) + 256 * ?r) :: u8) = m a"
    by (rule word_unat_eq_iff[THEN iffD2])
  then have "m(a := (of_nat (unat (m a) + 256 * ?r) :: u8)) = m"
    by simp
  moreover have "(unat (m a) + 256 * ?r) div 256 = ?r"
    using unsigned_less[of "m a", where 'a=nat] by simp
  ultimately show ?case using Suc.IH[of m "Suc a"] by simp
qed

lemma rd_le_wr_le_other:
  "b + j \<le> a \<or> a + k \<le> b \<Longrightarrow> rd_le (wr_le m a k n) b j = rd_le m b j"
  by (rule rd_le_cong) (auto simp: wr_le_outside)

lemma rd64_wr64_same [simp]: "rd64 (wr64 m a v) a = v"
  using unsigned_less[of v, where 'a=nat] by (simp add: rd64_def wr64_def rd_le_wr_le)

lemma rd32_wr32_same [simp]: "rd32 (wr32 m a v) a = v"
  using unsigned_less[of v, where 'a=nat] by (simp add: rd32_def wr32_def rd_le_wr_le)

lemma rd64_wr64_other [simp]: "b + 8 \<le> a \<or> a + 8 \<le> b \<Longrightarrow> rd64 (wr64 m a v) b = rd64 m b"
  by (simp add: rd64_def wr64_def rd_le_wr_le_other)

lemma rd32_wr64_other [simp]: "b + 4 \<le> a \<or> a + 8 \<le> b \<Longrightarrow> rd32 (wr64 m a v) b = rd32 m b"
  by (simp add: rd32_def wr64_def rd_le_wr_le_other)

lemma rd32_wr32_other [simp]: "b + 4 \<le> a \<or> a + 4 \<le> b \<Longrightarrow> rd32 (wr32 m a v) b = rd32 m b"
  by (simp add: rd32_def wr32_def rd_le_wr_le_other)

lemma rd64_wr32_other [simp]: "b + 8 \<le> a \<or> a + 4 \<le> b \<Longrightarrow> rd64 (wr32 m a v) b = rd64 m b"
  by (simp add: rd64_def wr32_def rd_le_wr_le_other)

lemma wr64_rd64_same [simp]: "wr64 m a (rd64 m a) = m"
proof -
  have "rd_le m a 8 < 2 ^ 64" using rd_le_bound[of m a 8] by simp
  then have "unat (of_nat (rd_le m a 8) :: u64) = rd_le m a 8"
    by (simp add: unat_of_nat)
  then show ?thesis by (simp add: rd64_def wr64_def wr_le_rd_le)
qed

lemma wr64_outside: "p < a \<or> a + 8 \<le> p \<Longrightarrow> wr64 m a v p = m p"
  by (simp add: wr64_def wr_le_outside)

lemma rd64_cong: "(\<And>i. i < 8 \<Longrightarrow> m (a + i) = m' (a + i)) \<Longrightarrow> rd64 m a = rd64 m' a"
  unfolding rd64_def by (rule arg_cong[where f = of_nat], rule rd_le_cong) simp

lemma rd32_cong: "(\<And>i. i < 4 \<Longrightarrow> m (a + i) = m' (a + i)) \<Longrightarrow> rd32 m a = rd32 m' a"
  unfolding rd32_def by (rule arg_cong[where f = of_nat], rule rd_le_cong) simp

lemma rd64_zero [simp]: "rd64 (\<lambda>p. 0) a = 0"
proof -
  have "rd_le (\<lambda>p. 0) a k = 0" for k
    by (induction k arbitrary: a) auto
  then show ?thesis by (simp add: rd64_def)
qed

section \<open>Header fields\<close>

lemma set_hdr_fields [simp]:
  "mmap_size (set_hdr_magic mf w) = mmap_size mf"
  "mmap_size (set_hdr_version mf w) = mmap_size mf"
  "mmap_size (set_hdr_file_size mf v) = mmap_size mf"
  "mmap_size (set_hdr_allocated mf v) = mmap_size mf"
  "mmap_size (set_hdr_free_list_head mf v) = mmap_size mf"
  "mmap_base (set_hdr_magic mf w) = mmap_base mf"
  "mmap_base (set_hdr_version mf w) = mmap_base mf"
  "mmap_base (set_hdr_file_size mf v) = mmap_base mf"
  "mmap_base (set_hdr_allocated mf v) = mmap_base mf"
  "mmap_base (set_hdr_free_list_head mf v) = mmap_base mf"
  "file_len (set_hdr_magic mf w) = file_len mf"
  "file_len (set_hdr_version mf w) = file_len mf"
  "file_len (set_hdr_file_size mf v) = file_len mf"
  "file_len (set_hdr_allocated mf v) = file_len mf"
  "file_len (set_hdr_free_list_head mf v) = file_len mf"
  by (simp_all add: set_hdr_magic_def set_hdr_version_def set_hdr_file_size_def
      set_hdr_allocated_def set_hdr_free_list_head_def)

lemma set_hdr_mem [simp]:
  "mem (set_hdr_magic mf w) = wr32 (mem mf) 0 w"
  "mem (set_hdr_version mf w) = wr32 (mem mf) 4 w"
  "mem (set_hdr_file_size mf v) = wr64 (mem mf) 8 v"
  "mem (set_hdr_allocated mf v) = wr64 (mem mf) 16 v"
  "mem (set_hdr_free_list_head mf v) = wr64 (mem mf) 24 v"
  by (simp_all add: set_hdr_magic_def set_hdr_version_def set_hdr_file_size_def
      set_hdr_allocated_def set_hdr_free_list_head_def)

lemma fresh_file_fields [simp]:
  "mmap_size fresh_file = 4096"
  "mmap_base fresh_file = 0x7F0000000000"
  "file_len fresh_file = 4096"
  "hdr_magic fresh_file = MEMFILE_MAGIC"
  "hdr_version fresh_file = MEMFILE_VERSION"
  "hdr_file_size fresh_file = 4096"
  "hdr_allocated fresh_file = 32"
  "hdr_free_list_head fresh_file = 0"
  by (simp_all add: fresh_file_def hdr_magic_def hdr_version_def hdr_file_size_def
      hdr_allocated_def hdr_free_list_head_def sizeof_header_def)

lemma ptr_pos_base [simp]: "ptr_pos mf (mmap_base mf + off) = unat off"
  by (simp add: ptr_pos_def)

section \<open>Pointer conversion and the helpers that use it\<close>

text \<open>
  Claim C10.  \<open>memfile_ptr\<close> returns \<open>NULL\<close> exactly when the offset is 0 or at least
  \<open>mmap_size\<close>, and \<open>mmap_base + offset\<close> otherwise.  Hence \<open>memfile_read\<close> and
  \<open>memfile_write\<close> fail for every offset at or past \<open>mmap_size\<close>, also when \<open>len\<close> is 0.
\<close>

theorem memfile_ptr_null_iff_and_io_fails:
  "(memfile_ptr mf offset = NULL \<longleftrightarrow> offset = 0 \<or> mmap_size mf \<le> offset) \<and>
   (\<not> (offset = 0 \<or> mmap_size mf \<le> offset) \<longrightarrow>
      memfile_ptr mf offset = Ptr (mmap_base mf + offset)) \<and>
   (mmap_size mf \<le> offset \<longrightarrow>
      memfile_read mf offset len = Inl OutOfBounds \<and>
      memfile_write mf offset buf len = Inl OutOfBounds)"
  by (simp add: memfile_ptr_def memfile_read_def memfile_write_def)

text \<open>On the fresh 4096-byte file: offset 4096 with length 0, and offset 40.\<close>

theorem memfile_ptr_null_iff_and_io_fails_witness:
  "mmap_size fresh_file \<le> 4096 \<and>
   memfile_ptr fresh_file 4096 = NULL \<and>
   memfile_read fresh_file 4096 0 = Inl OutOfBounds \<and>
   memfile_write fresh_file 4096 (\<lambda>i. 0) 0 = Inl OutOfBounds \<and>
   \<not> ((40 :: u64) = 0 \<or> mmap_size fresh_file \<le> 40) \<and>
   memfile_ptr fresh_file 40 = Ptr (mmap_base fresh_file + 40)"
  using memfile_ptr_null_iff_and_io_fails [of fresh_file 4096 0 "\<lambda>i. 0"]
    memfile_ptr_null_iff_and_io_fails [of fresh_file 40 0 "\<lambda>i. 0"]
  by simp

section \<open>Bounds of read and write\<close>

lemma no_wrap_sum:
  fixes offset len :: u64
  assumes "unat offset + unat len < 2 ^ 64"
  shows "unat (offset + len) = unat offset + unat len"
  using assms unat_add_lem[of offset len] by simp

lemma read_write_fail_iff:
  assumes "unat offset + unat len < 2 ^ 64"
  shows "memfile_read mf offset len = Inl OutOfBounds \<longleftrightarrow>
           unat (mmap_size mf) < unat offset + unat len \<or> offset = 0 \<or> offset = mmap_size mf"
    and "memfile_write mf offset buf len = Inl OutOfBounds \<longleftrightarrow>
           unat (mmap_size mf) < unat offset + unat len \<or> offset = 0 \<or> offset = mmap_size mf"
  using no_wrap_sum[OF assms]
  by (auto simp: memfile_read_def memfile_write_def memfile_ptr_def word_less_nat_alt
      word_le_nat_alt word_unat_eq_iff)

text \<open>
  Claim C3, amended.  For every offset and length whose sum does not wrap around,
  \<open>memfile_read\<close> and \<open>memfile_write\<close> fail with \<open>OutOfBounds\<close> exactly when
  \<open>offset + len > mmap_size\<close>, or the offset is 0, or the offset equals \<open>mmap_size\<close>
  (which leaves only \<open>len = 0\<close>); in every other case they succeed and copy the bytes at
  the offset, whether or not the range lies in a live allocation.
\<close>

theorem read_write_bounds:
  assumes "unat offset + unat len < 2 ^ 64"
  shows "(memfile_read mf offset len = Inl OutOfBounds \<longleftrightarrow>
            unat (mmap_size mf) < unat offset + unat len \<or> offset = 0 \<or> offset = mmap_size mf) \<and>
         (memfile_write mf offset buf len = Inl OutOfBounds \<longleftrightarrow>
            unat (mmap_size mf) < unat offset + unat len \<or> offset = 0 \<or> offset = mmap_size mf) \<and>
         (\<not> (unat (mmap_size mf) < unat offset + unat len \<or> offset = 0 \<or> offset = mmap_size mf) \<longrightarrow>
            memfile_read mf offset len = Inr (map (\<lambda>i. mem mf (unat offset + i)) [0..<unat len]) \<and>
            memfile_write mf offset buf len =
              Inr (mf\<lparr>mem := (\<lambda>p. if unat offset \<le> p \<and> p < unat offset + unat len
                                     then buf (p - unat offset) else mem mf p)\<rparr>))"
proof (intro conjI impI)
  show "memfile_read mf offset len = Inl OutOfBounds \<longleftrightarrow>
          unat (mmap_size mf) < unat offset + unat len \<or> offset = 0 \<or> offset = mmap_size mf"
    by (rule read_write_fail_iff(1)[OF assms])
  show "memfile_write mf offset buf len = Inl OutOfBounds \<longleftrightarrow>
          unat (mmap_size mf) < unat offset + unat len \<or> offset = 0 \<or> offset = mmap_size mf"
    by (rule read_write_fail_iff(2)[OF assms])
next
  assume ok: "\<not> (unat (mmap_size mf) < unat offset + unat len \<or> offset = 0 \<or> offset = mmap_size mf)"
  then have 1: "\<not> mmap_size mf < offset + len"
    using no_wrap_sum[OF assms] by (simp add: word_less_nat_alt)
  from ok have 2: "memfile_ptr mf offset = Ptr (mmap_base mf + offset)"
    by (auto simp: memfile_ptr_def word_le_nat_alt word_unat_eq_iff)
  from ok have 3: "unat offset + unat len \<le> unat (mmap_size mf)" by simp
  show "memfile_read mf offset len = Inr (map (\<lambda>i. mem mf (unat offset + i)) [0..<unat len])"
    using 1 2 3 by (simp add: memfile_read_def)
  show "memfile_write mf offset buf len =
          Inr (mf\<lparr>mem := (\<lambda>p. if unat offset \<le> p \<and> p < unat offset + unat len
                                 then buf (p - unat offset) else mem mf p)\<rparr>)"
    using 1 2 3 by (simp add: memfile_write_def cong: if_cong)
qed

text \<open>On the fresh file: five bytes at offset 40.\<close>

theorem read_write_bounds_witness:
  "unat (40 :: u64) + unat (5 :: u64) < 2 ^ 64 \<and>
   \<not> (unat (mmap_size fresh_file) < unat (40 :: u64) + unat (5 :: u64) \<or> (40 :: u64) = 0 \<or>
      40 = mmap_size fresh_file) \<and>
   memfile_read fresh_file 40 5 \<noteq> Inl OutOfBounds \<and>
   memfile_read fresh_file 40 5 = Inr (map (\<lambda>i. mem fresh_file (unat (40 :: u64) + i)) [0..<unat (5 :: u64)])"
  using read_write_bounds [of 40 5 fresh_file "\<lambda>i. 0"]
  by simp

text \<open>
  The claim as stated fails twice on the fresh 4096-byte file.  Offset 4096 with length
  0 fails although \<open>offset + len \<le> mmap_size\<close> and the offset is not 0.  Offset 40 with
  length \<open>2^64 - 40\<close> has a sum that wraps to 0: the check passes and the copy runs over
  the end of the mapping instead of failing with \<open>OutOfBounds\<close>.
\<close>

theorem read_bounds_counterexample:
  "memfile_read fresh_file 4096 0 = Inl OutOfBounds \<and>
   unat (4096 :: u64) + unat (0 :: u64) \<le> unat (mmap_size fresh_file) \<and>
   (4096 :: u64) \<noteq> 0 \<and>
   memfile_read fresh_file 40 (- 40) = Inl Fault \<and>
   unat (mmap_size fresh_file) < unat (40 :: u64) + unat (- 40 :: u64)"
  by (simp add: memfile_read_def memfile_write_def memfile_ptr_def)

section \<open>Opening a file\<close>

lemma sys_ok_fields [simp]:
  "calloc_ok sys_ok" "open_result sys_ok = 3" "ftruncate_ok sys_ok"
  "mmap_result sys_ok = Some 0x7F0000000000" "mremap_result sys_ok = Some 0x7F0000100000"
  "malloc_ok sys_ok"
  by (simp_all add: sys_ok_def)

lemma st_size_simps [simp]: "st_size Absent = 0" "st_size (File n bytes) = n"
  by (simp_all add: st_size_def)

text \<open>The fresh branch of \<open>memfile_open\<close> when every system call succeeds.\<close>

lemma open_fresh_ok:
  assumes "fs = Absent \<or> st_size fs = 0"
    and "calloc_ok os" and "0 \<le> open_result os" and "ftruncate_ok os"
    and "mmap_result os = Some base"
  shows "memfile_open fs os pth initial_size =
     (let n = (if initial_size < 96 then 4096 else initial_size);
          mf = set_hdr_free_list_head
                 (set_hdr_allocated
                   (set_hdr_file_size
                     (set_hdr_version
                       (set_hdr_magic
                          \<lparr>fd = open_result os, path = pth, mmap_base = base, mmap_size = n,
                           closed = False, mem = (\<lambda>p. 0), file_len = n\<rparr>
                          MEMFILE_MAGIC)
                       MEMFILE_VERSION)
                     n)
                   sizeof_header)
                 0
      in (Some mf, File n (mem mf)))"
  using assms by (auto simp: memfile_open_def Let_def sizeof_header_def)

lemma open_t1_fresh: "memfile_open Absent sys_ok ''t1'' 64 = (Some fresh_file, File 4096 (mem fresh_file))"
  by (simp add: open_fresh_ok[where base = "0x7F0000000000"] fresh_file_def)

text \<open>
  Claim C7, amended.  When \<open>memfile_open\<close> creates a fresh file (absent or empty) and
  succeeds, the file is truncated to \<open>initial_size\<close> itself when \<open>initial_size\<close> is at
  least \<open>sizeof(header) + 64 = 96\<close>, and to 4096 when it is smaller; the mapping and the
  header field \<open>file_size\<close> have that size, which is never smaller than 96.
\<close>

theorem open_fresh_file_size:
  assumes "fs = Absent \<or> st_size fs = 0"
    and "calloc_ok os" and "0 \<le> open_result os" and "ftruncate_ok os"
    and "mmap_result os = Some base"
  shows "\<exists>mf. memfile_open fs os pth initial_size =
                 (Some mf, File (if initial_size < 96 then 4096 else initial_size) (mem mf)) \<and>
              file_len mf = (if initial_size < 96 then 4096 else initial_size) \<and>
              mmap_size mf = (if initial_size < 96 then 4096 else initial_size) \<and>
              hdr_file_size mf = (if initial_size < 96 then 4096 else initial_size) \<and>
              96 \<le> hdr_file_size mf"
  unfolding open_fresh_ok[OF assms]
  by (simp add: Let_def hdr_file_size_def not_less)

theorem open_fresh_file_size_witness:
  "(Absent = Absent \<or> st_size Absent = 0) \<and> calloc_ok sys_ok \<and> 0 \<le> open_result sys_ok \<and>
   ftruncate_ok sys_ok \<and> mmap_result sys_ok = Some 0x7F0000000000 \<and>
   (\<exists>mf. memfile_open Absent sys_ok ''t1'' 200 =
            (Some mf, File (if (200 :: u64) < 96 then 4096 else 200) (mem mf)) \<and>
         file_len mf = (if (200 :: u64) < 96 then 4096 else 200) \<and>
         mmap_size mf = (if (200 :: u64) < 96 then 4096 else 200) \<and>
         hdr_file_size mf = (if (200 :: u64) < 96 then 4096 else 200) \<and>
         96 \<le> hdr_file_size mf)"
  using open_fresh_file_size [of Absent sys_ok "0x7F0000000000" "''t1''" 200]
  by simp

text \<open>
  With \<open>initial_size = 100\<close> the fresh file gets 100 bytes, not \<open>max(100, 4096) = 4096\<close>.
\<close>

theorem open_fresh_file_size_counterexample:
  "map_option hdr_file_size (fst (memfile_open Absent sys_ok ''t1'' 100)) = Some 100 \<and>
   map_option file_len (fst (memfile_open Absent sys_ok ''t1'' 100)) = Some 100 \<and>
   max (100 :: u64) 4096 = 4096"
  by (simp add: open_fresh_ok[where base = "0x7F0000000000"] Let_def hdr_file_size_def)

text \<open>
  Claim C6 at its failing input.  The path is absent, \<open>open\<close> creates the file and
  \<open>ftruncate\<close> fails: \<open>memfile_open\<close> returns \<open>NULL\<close> and the empty file it created is
  still there.  Only the failure of \<open>mmap\<close> unlinks it.
\<close>

theorem open_ftruncate_failure_keeps_file:
  "memfile_open Absent (sys_ok\<lparr>ftruncate_ok := False\<rparr>) ''t1'' 4096 = (None, File 0 (\<lambda>p. 0)) \<and>
   memfile_open Absent (sys_ok\<lparr>mmap_result := None\<rparr>) ''t1'' 4096 = (None, Absent)"
  by (simp add: memfile_open_def sizeof_header_def)

section \<open>Header fields under writes\<close>

lemma hdr_set_hdr [simp]:
  "hdr_file_size (set_hdr_file_size mf v) = v"
  "hdr_file_size (set_hdr_allocated mf v) = hdr_file_size mf"
  "hdr_file_size (set_hdr_free_list_head mf v) = hdr_file_size mf"
  "hdr_allocated (set_hdr_file_size mf v) = hdr_allocated mf"
  "hdr_allocated (set_hdr_allocated mf v) = v"
  "hdr_allocated (set_hdr_free_list_head mf v) = hdr_allocated mf"
  "hdr_free_list_head (set_hdr_file_size mf v) = hdr_free_list_head mf"
  "hdr_free_list_head (set_hdr_allocated mf v) = hdr_free_list_head mf"
  "hdr_free_list_head (set_hdr_free_list_head mf v) = v"
  "hdr_magic (set_hdr_file_size mf v) = hdr_magic mf"
  "hdr_magic (set_hdr_allocated mf v) = hdr_magic mf"
  "hdr_magic (set_hdr_free_list_head mf v) = hdr_magic mf"
  "hdr_version (set_hdr_file_size mf v) = hdr_version mf"
  "hdr_version (set_hdr_allocated mf v) = hdr_version mf"
  "hdr_version (set_hdr_free_list_head mf v) = hdr_version mf"
  by (simp_all add: hdr_file_size_def hdr_allocated_def hdr_free_list_head_def hdr_magic_def
      hdr_version_def)

lemma hdr_wr64_other [simp]:
  assumes "32 \<le> a"
  shows "hdr_file_size (mf\<lparr>mem := wr64 (mem mf) a v\<rparr>) = hdr_file_size mf"
    and "hdr_allocated (mf\<lparr>mem := wr64 (mem mf) a v\<rparr>) = hdr_allocated mf"
    and "hdr_free_list_head (mf\<lparr>mem := wr64 (mem mf) a v\<rparr>) = hdr_free_list_head mf"
    and "hdr_magic (mf\<lparr>mem := wr64 (mem mf) a v\<rparr>) = hdr_magic mf"
    and "hdr_version (mf\<lparr>mem := wr64 (mem mf) a v\<rparr>) = hdr_version mf"
  using assms
  by (simp_all add: hdr_file_size_def hdr_allocated_def hdr_free_list_head_def hdr_magic_def
      hdr_version_def)

section \<open>Growth\<close>

lemma remap_ok:
  assumes "ftruncate_ok os" and "mremap_result os = Some nb"
  shows "memfile_remap mf os n =
           (0, set_hdr_file_size
                 (mf\<lparr>file_len := n,
                     mem := (\<lambda>p. if p < unat (file_len mf) \<and> p < unat n then mem mf p else 0),
                     mmap_base := nb, mmap_size := n\<rparr>) n)"
  using assms by (simp add: memfile_remap_def)

lemma remap_fail:
  assumes "\<not> ftruncate_ok os \<or> mremap_result os = None"
  shows "fst (memfile_remap mf os n) = - 1"
    and "mmap_size (snd (memfile_remap mf os n)) = mmap_size mf"
    and "mmap_base (snd (memfile_remap mf os n)) = mmap_base mf"
  using assms by (auto simp: memfile_remap_def)

text \<open>
  A successful \<open>memfile_remap\<close> keeps every byte that lies below the old and the new
  length of the file, the header field \<open>file_size\<close> apart.
\<close>

lemma remap_keeps_bytes:
  assumes "ftruncate_ok os" and "mremap_result os = Some nb"
    and "p < unat (file_len mf)" and "p < unat n" and "p < 8 \<or> 16 \<le> p"
  shows "mem (snd (memfile_remap mf os n)) p = mem mf p"
  using assms by (auto simp: remap_ok wr64_outside)

text \<open>The sums and the doubling of \<open>memfile_ensure_space\<close> where they do not overflow.\<close>

lemma ensure_space_sums:
  fixes a n m :: u64
  assumes "unat m * 2 < 2 ^ 64" and "unat a + unat n + 4096 < 2 ^ 64"
  shows "unat (a + n) = unat a + unat n"
    and "unat (a + n + 4096) = unat a + unat n + 4096"
    and "unat (m * 2) = unat m * 2"
proof -
  show 1: "unat (a + n) = unat a + unat n"
    using assms(2) by (intro no_wrap_sum) simp
  have "unat (a + n) + unat (4096 :: u64) < 2 ^ 64"
    using assms(2) 1 by simp
  then have "unat (a + n + 4096) = unat (a + n) + unat (4096 :: u64)"
    by (rule no_wrap_sum)
  then show "unat (a + n + 4096) = unat a + unat n + 4096"
    using 1 by simp
  have "unat m + unat m < 2 ^ 64"
    using assms(1) by simp
  then have "unat (m + m) = unat m + unat m"
    by (rule no_wrap_sum)
  also have "\<dots> = unat m * 2" by (rule mult_2_right[symmetric])
  finally have "unat (m + m) = unat m * 2" .
  moreover have "m * 2 = m + m" by (rule mult_2_right)
  ultimately show "unat (m * 2) = unat m * 2" by (simp only:)
qed

text \<open>
  Claim C2, amended.  For sizes with which neither \<open>mmap_size * 2\<close> nor
  \<open>allocated + needed + 4096\<close> overflows 64 bits: when \<open>allocated + needed \<le> file_size\<close>,
  \<open>memfile_ensure_space\<close> changes nothing.  When \<open>allocated + needed > file_size\<close>, the
  new size is \<open>mmap_size * 2\<close> if that is at least \<open>allocated + needed\<close>, and
  \<open>allocated + needed + 4096\<close> if it is smaller.  If \<open>ftruncate\<close> and \<open>mremap\<close> succeed,
  the file is truncated to the new size, \<open>mmap_size\<close> is the new size, the base is the
  one \<open>mremap\<close> returned and \<open>file_size\<close> in the header, read through the new base, is
  the new size; if one of them fails the result is \<open>-1\<close> and base and \<open>mmap_size\<close> are
  unchanged.
\<close>

theorem ensure_space_growth:
  assumes "unat (mmap_size mf) * 2 < 2 ^ 64"
    and "unat (hdr_allocated mf) + unat needed + 4096 < 2 ^ 64"
    and "N = (if unat (mmap_size mf) * 2 < unat (hdr_allocated mf) + unat needed
              then unat (hdr_allocated mf) + unat needed + 4096
              else unat (mmap_size mf) * 2)"
  shows "(unat (hdr_allocated mf) + unat needed \<le> unat (hdr_file_size mf) \<longrightarrow>
            memfile_ensure_space mf os needed = (0, mf)) \<and>
         (unat (hdr_file_size mf) < unat (hdr_allocated mf) + unat needed \<and>
          ftruncate_ok os \<and> mremap_result os = Some nb \<longrightarrow>
            (\<exists>mf'. memfile_ensure_space mf os needed = (0, mf') \<and>
                   unat (file_len mf') = N \<and> unat (mmap_size mf') = N \<and>
                   mmap_base mf' = nb \<and> unat (hdr_file_size mf') = N)) \<and>
         (unat (hdr_file_size mf) < unat (hdr_allocated mf) + unat needed \<and>
          (\<not> ftruncate_ok os \<or> mremap_result os = None) \<longrightarrow>
            fst (memfile_ensure_space mf os needed) = - 1 \<and>
            mmap_size (snd (memfile_ensure_space mf os needed)) = mmap_size mf \<and>
            mmap_base (snd (memfile_ensure_space mf os needed)) = mmap_base mf)"
proof -
  let ?a = "hdr_allocated mf"
  define W where "W = (if mmap_size mf * 2 < ?a + needed then ?a + needed + 4096
                       else mmap_size mf * 2)"
  note sums = ensure_space_sums[OF assms(1,2)]
  have le: "?a + needed \<le> hdr_file_size mf \<longleftrightarrow>
              unat ?a + unat needed \<le> unat (hdr_file_size mf)"
    by (simp add: word_le_nat_alt sums(1))
  have lt: "mmap_size mf * 2 < ?a + needed \<longleftrightarrow>
              unat (mmap_size mf) * 2 < unat ?a + unat needed"
    by (simp only: word_less_nat_alt sums(1,3))
  have W: "unat W = N"
    unfolding W_def assms(3) lt using sums(2,3) by (simp only: if_distrib[of unat] split: if_splits) 
  have grow: "memfile_ensure_space mf os needed = memfile_remap mf os W"
    if "unat (hdr_file_size mf) < unat ?a + unat needed"
    using that le by (simp add: memfile_ensure_space_def W_def Let_def)
  show ?thesis
  proof (intro conjI impI)
    assume "unat ?a + unat needed \<le> unat (hdr_file_size mf)"
    then show "memfile_ensure_space mf os needed = (0, mf)"
      using le by (simp add: memfile_ensure_space_def)
  next
    assume a: "unat (hdr_file_size mf) < unat ?a + unat needed \<and>
               ftruncate_ok os \<and> mremap_result os = Some nb"
    then have ok: "ftruncate_ok os" "mremap_result os = Some nb" by simp_all
    let ?mf' = "set_hdr_file_size
                  (mf\<lparr>file_len := W,
                      mem := (\<lambda>p. if p < unat (file_len mf) \<and> p < unat W then mem mf p else 0),
                      mmap_base := nb, mmap_size := W\<rparr>) W"
    have "memfile_ensure_space mf os needed = (0, ?mf')"
      using grow a remap_ok[OF ok] by simp
    moreover have "unat (file_len ?mf') = N" "unat (mmap_size ?mf') = N"
      "mmap_base ?mf' = nb" "unat (hdr_file_size ?mf') = N"
      using W by simp_all
    ultimately show "\<exists>mf'. memfile_ensure_space mf os needed = (0, mf') \<and>
                unat (file_len mf') = N \<and> unat (mmap_size mf') = N \<and>
                mmap_base mf' = nb \<and> unat (hdr_file_size mf') = N"
      by blast
  next
    assume a: "unat (hdr_file_size mf) < unat ?a + unat needed \<and>
               (\<not> ftruncate_ok os \<or> mremap_result os = None)"
    then have e: "memfile_ensure_space mf os needed = memfile_remap mf os W"
      using grow by simp
    from a have f: "\<not> ftruncate_ok os \<or> mremap_result os = None" by simp
    show "fst (memfile_ensure_space mf os needed) = - 1"
      unfolding e by (rule remap_fail(1)[OF f])
    show "mmap_size (snd (memfile_ensure_space mf os needed)) = mmap_size mf"
      unfolding e by (rule remap_fail(2)[OF f])
    show "mmap_base (snd (memfile_ensure_space mf os needed)) = mmap_base mf"
      unfolding e by (rule remap_fail(3)[OF f])
  qed
qed

text \<open>
  The fresh 4096-byte file asked for 5008 more bytes grows to 8192; asked for 8 more
  bytes it stays as it is; asked for 5008 with \<open>ftruncate\<close> failing it returns \<open>-1\<close>.
\<close>

theorem ensure_space_growth_witness:
  "unat (mmap_size fresh_file) * 2 < 2 ^ 64 \<and>
   unat (hdr_allocated fresh_file) + unat (5008 :: u64) + 4096 < 2 ^ 64 \<and>
   (8192 :: nat) = (if unat (mmap_size fresh_file) * 2 < unat (hdr_allocated fresh_file) + unat (5008 :: u64)
                    then unat (hdr_allocated fresh_file) + unat (5008 :: u64) + 4096
                    else unat (mmap_size fresh_file) * 2) \<and>
   unat (hdr_file_size fresh_file) < unat (hdr_allocated fresh_file) + unat (5008 :: u64) \<and>
   ftruncate_ok sys_ok \<and> mremap_result sys_ok = Some 0x7F0000100000 \<and>
   (\<exists>mf'. memfile_ensure_space fresh_file sys_ok 5008 = (0, mf') \<and>
          unat (file_len mf') = 8192 \<and> unat (mmap_size mf') = 8192 \<and>
          mmap_base mf' = 0x7F0000100000 \<and> unat (hdr_file_size mf') = 8192) \<and>
   unat (hdr_allocated fresh_file) + unat (8 :: u64) \<le> unat (hdr_file_size fresh_file) \<and>
   memfile_ensure_space fresh_file sys_ok 8 = (0, fresh_file) \<and>
   \<not> ftruncate_ok (sys_ok\<lparr>ftruncate_ok := False\<rparr>) \<and>
   fst (memfile_ensure_space fresh_file (sys_ok\<lparr>ftruncate_ok := False\<rparr>) 5008) = - 1"
proof -
  have h: "unat (mmap_size fresh_file) * 2 < 2 ^ 64" by simp
  have h5: "unat (hdr_allocated fresh_file) + unat (5008 :: u64) + 4096 < 2 ^ 64" by simp
  have h8: "unat (hdr_allocated fresh_file) + unat (8 :: u64) + 4096 < 2 ^ 64" by simp
  have n5: "(8192 :: nat) = (if unat (mmap_size fresh_file) * 2 < unat (hdr_allocated fresh_file) + unat (5008 :: u64)
                    then unat (hdr_allocated fresh_file) + unat (5008 :: u64) + 4096
                    else unat (mmap_size fresh_file) * 2)" by simp
  have n8: "(8192 :: nat) = (if unat (mmap_size fresh_file) * 2 < unat (hdr_allocated fresh_file) + unat (8 :: u64)
                    then unat (hdr_allocated fresh_file) + unat (8 :: u64) + 4096
                    else unat (mmap_size fresh_file) * 2)" by simp
  show ?thesis
    using ensure_space_growth [OF h h5 n5, of sys_ok "0x7F0000100000"]
      ensure_space_growth [OF h h8 n8, of sys_ok "0x7F0000100000"]
      ensure_space_growth [OF h h5 n5, of "sys_ok\<lparr>ftruncate_ok := False\<rparr>" "0x7F0000100000"]
    by simp
qed

text \<open>
  The claim as stated fails three times on the fresh file.  With \<open>needed = 5008\<close>,
  \<open>allocated + needed = 5040\<close> exceeds \<open>file_size = 4096\<close> and the file grows to \<open>8192\<close>,
  while \<open>max(mmap_size * 2, allocated + needed + 4096)\<close> is \<open>9136\<close>.  With the same
  \<open>needed\<close> and \<open>ftruncate\<close> failing, nothing is grown: the result is \<open>-1\<close> and
  \<open>mmap_size\<close> stays 4096.  With \<open>needed = 2^64 - 16\<close>, the total \<open>memfile_alloc\<close>
  computes for the size \<open>2^64 - 24\<close>, the sum \<open>allocated + needed\<close> overflows to 16 and
  nothing changes although \<open>allocated + needed\<close> exceeds \<open>file_size\<close>.
\<close>

theorem ensure_space_growth_counterexample:
  "hdr_file_size fresh_file < hdr_allocated fresh_file + 5008 \<and>
   fst (memfile_ensure_space fresh_file sys_ok 5008) = 0 \<and>
   mmap_size (snd (memfile_ensure_space fresh_file sys_ok 5008)) = 8192 \<and>
   file_len (snd (memfile_ensure_space fresh_file sys_ok 5008)) = 8192 \<and>
   hdr_file_size (snd (memfile_ensure_space fresh_file sys_ok 5008)) = 8192 \<and>
   max (mmap_size fresh_file * 2) (hdr_allocated fresh_file + 5008 + 4096) = 9136 \<and>
   fst (memfile_ensure_space fresh_file (sys_ok\<lparr>ftruncate_ok := False\<rparr>) 5008) = - 1 \<and>
   mmap_size (snd (memfile_ensure_space fresh_file (sys_ok\<lparr>ftruncate_ok := False\<rparr>) 5008)) = 4096 \<and>
   unat (hdr_file_size fresh_file) < unat (hdr_allocated fresh_file) + unat (- 16 :: u64) \<and>
   memfile_ensure_space fresh_file sys_ok (- 16) = (0, fresh_file)"
proof -
  have "memfile_ensure_space fresh_file sys_ok 5008 = memfile_remap fresh_file sys_ok 8192"
    by (simp add: memfile_ensure_space_def)
  then have e: "memfile_ensure_space fresh_file sys_ok 5008 =
      (0, set_hdr_file_size
            (fresh_file\<lparr>file_len := 8192,
                 mem := (\<lambda>p. if p < unat (file_len fresh_file) \<and> p < unat (8192 :: u64)
                             then mem fresh_file p else 0),
                 mmap_base := 0x7F0000100000, mmap_size := 8192\<rparr>) 8192)"
    by (simp add: remap_ok[where nb = "0x7F0000100000"])
  have 1: "hdr_file_size (snd (memfile_ensure_space fresh_file sys_ok 5008)) = 8192"
    unfolding e by (simp add: hdr_file_size_def)
  have f: "memfile_ensure_space fresh_file (sys_ok\<lparr>ftruncate_ok := False\<rparr>) 5008 =
             memfile_remap fresh_file (sys_ok\<lparr>ftruncate_ok := False\<rparr>) 8192"
    by (simp add: memfile_ensure_space_def)
  have 2: "fst (memfile_ensure_space fresh_file (sys_ok\<lparr>ftruncate_ok := False\<rparr>) 5008) = - 1"
    "mmap_size (snd (memfile_ensure_space fresh_file (sys_ok\<lparr>ftruncate_ok := False\<rparr>) 5008)) = 4096"
    unfolding f by (simp_all add: remap_fail)
  have 3: "memfile_ensure_space fresh_file sys_ok (- 16) = (0, fresh_file)"
    by (simp add: memfile_ensure_space_def)
  show ?thesis
    using 1 2 3 unfolding e by simp
qed

section \<open>Block sizes\<close>

lemma load_u64_ptr:
  assumes "off \<noteq> 0" and "unat off + k + 8 \<le> unat (mmap_size mf)"
  shows "load_u64 mf (memfile_ptr mf off) k = Inr (rd64 (mem mf) (unat off + k))"
proof -
  have "off < mmap_size mf" using assms(2) by (simp add: word_less_nat_alt)
  then show ?thesis using assms by (simp add: load_u64_def memfile_ptr_def not_le[symmetric])
qed

lemma store_u64_ptr:
  assumes "off \<noteq> 0" and "unat off + k + 8 \<le> unat (mmap_size mf)"
  shows "store_u64 mf (memfile_ptr mf off) k v = Inr (mf\<lparr>mem := wr64 (mem mf) (unat off + k) v\<rparr>)"
proof -
  have "off < mmap_size mf" using assms(2) by (simp add: word_less_nat_alt)
  then show ?thesis using assms by (simp add: store_u64_def memfile_ptr_def not_le[symmetric])
qed

text \<open>
  Claim C1 at its failing input.  \<open>memfile_alloc\<close> with size 0 on the fresh file returns
  offset 40 and stores the block size 8 in the allocation header at 32: a multiple of 8,
  but smaller than 16.  Nothing in \<open>memfile_alloc\<close> raises the total to 16.
\<close>

theorem alloc_zero_stores_size_8:
  "map_option (map_sum id (\<lambda>r. (snd r, rd64 (mem (fst r)) 32, hdr_allocated (fst r))))
     (memfile_alloc fresh_file sys_ok 0) = Some (Inr (40, 8, 40))"
proof -
  have 1: "alloc_loop fresh_file 8 0 0 = Some (Inr None)"
    by (subst alloc_loop.simps) simp
  have 2: "memfile_ensure_space fresh_file sys_ok 8 = (0, fresh_file)"
    by (simp add: memfile_ensure_space_def)
  have 3: "store_u64 fresh_file (memfile_ptr fresh_file 32) 0 8 =
             Inr (fresh_file\<lparr>mem := wr64 (mem fresh_file) 32 8\<rparr>)"
    using store_u64_ptr[where off = 32 and mf = fresh_file and k = 0 and v = 8] by simp
  have 4: "rd64 (mem (set_hdr_allocated (fresh_file\<lparr>mem := wr64 (mem fresh_file) 32 8\<rparr>) 40)) 32 = 8"
    by simp
  show ?thesis
    by (simp add: memfile_alloc_def sizeof_alloc_def 1 2 3 4)
qed

section \<open>Freeing and reuse\<close>

lemma round_up_multiple:
  fixes s :: u64
  assumes "s AND 7 = 0"
  shows "(s + 7) AND NOT 7 = s"
proof -
  have "s + 7 = (s AND 7) + (s OR 7)" by simp
  then have 1: "s + 7 = s OR 7" using assms by simp
  have "(s OR 7) AND NOT 7 = (s AND NOT 7) OR (7 AND NOT 7)"
    by (rule bit.conj_disj_distrib2)
  then have 2: "(s OR 7) AND NOT 7 = s AND NOT 7" by simp
  have "s = (s AND 7) OR (s AND NOT 7)"
    by (metis bit.conj_disj_distrib bit.disj_cancel_right and.right_neutral)
  then have 3: "s AND NOT 7 = s" using assms by simp
  show ?thesis using 1 2 3 by simp
qed

lemma unat_minus_8:
  fixes p :: u64
  assumes "8 \<le> unat p"
  shows "unat (p - 8) = unat p - 8"
proof -
  have "(8 :: u64) \<le> p" using assms by (simp add: word_le_nat_alt)
  then show ?thesis by (simp add: unat_sub)
qed

lemma memfile_ptr_mem [simp]:
  "memfile_ptr (mf\<lparr>mem := m\<rparr>) off = memfile_ptr mf off"
  "memfile_ptr (set_hdr_free_list_head mf v) off = memfile_ptr mf off"
  "memfile_ptr (set_hdr_allocated mf v) off = memfile_ptr mf off"
  "memfile_ptr (set_hdr_file_size mf v) off = memfile_ptr mf off"
  by (simp_all add: memfile_ptr_def)

text \<open>What \<open>memfile_free\<close> does to a block whose 16-byte node lies in the mapping.\<close>

lemma free_result:
  assumes "8 < unat offset" and "unat offset + 8 \<le> unat (mmap_size mf)"
  shows "memfile_free mf offset =
           Inr (set_hdr_free_list_head
                  (mf\<lparr>mem := wr64 (mem mf) (unat offset) (hdr_free_list_head mf)\<rparr>)
                  (offset - 8))"
proof -
  have h: "unat (offset - 8) = unat offset - 8" using assms(1) by (simp add: unat_minus_8)
  have "0 < unat offset" "0 < unat (offset - 8)" using assms(1) h by simp_all
  then have nz: "offset \<noteq> 0" "offset - 8 \<noteq> 0" by (simp_all add: unat_gt_0)
  have l: "load_u64 mf (memfile_ptr mf (offset - 8)) 0 = Inr (rd64 (mem mf) (unat offset - 8))"
    using load_u64_ptr[where off = "offset - 8" and mf = mf and k = 0] nz assms h by simp
  have s1: "store_u64 mf (memfile_ptr mf (offset - 8)) 0 (rd64 (mem mf) (unat offset - 8)) = Inr mf"
    using store_u64_ptr[where off = "offset - 8" and mf = mf and k = 0] nz assms h by simp
  have s2: "store_u64 mf (memfile_ptr mf (offset - 8)) 8 v =
              Inr (mf\<lparr>mem := wr64 (mem mf) (unat offset) v\<rparr>)" for v
    using store_u64_ptr[where off = "offset - 8" and mf = mf and k = 8] nz assms h by simp
  show ?thesis
    using nz by (simp add: memfile_free_def sizeof_alloc_def l s1 s2)
qed

text \<open>
  The frame of \<open>memfile_free\<close> for a block whose 16-byte node lies in the mapping.  For
  an offset \<open>p\<close> of at least 40 with the 16 bytes from \<open>p - 8\<close> in the mapping,
  \<open>memfile_free\<close> succeeds; the node at \<open>p - 8\<close> keeps the stored allocation size as its
  size and gets the old \<open>free_list_head\<close> as \<open>next\<close>; \<open>free_list_head\<close> becomes \<open>p - 8\<close>;
  \<open>magic\<close>, \<open>version\<close>, \<open>file_size\<close> and \<open>allocated\<close>, every byte outside the node and
  outside the \<open>free_list_head\<close> field, and the handle's base, size and file length are
  unchanged.  \<open>memfile_free\<close> with offset 0 changes nothing.
\<close>

lemma free_frame:
  assumes "40 \<le> unat p" and "unat p + 8 \<le> unat (mmap_size mf)"
  shows "\<exists>mf'. memfile_free mf p = Inr mf' \<and>
           rd64 (mem mf') (unat p - 8) = rd64 (mem mf) (unat p - 8) \<and>
           rd64 (mem mf') (unat p) = hdr_free_list_head mf \<and>
           hdr_free_list_head mf' = p - 8 \<and>
           hdr_magic mf' = hdr_magic mf \<and> hdr_version mf' = hdr_version mf \<and>
           hdr_file_size mf' = hdr_file_size mf \<and> hdr_allocated mf' = hdr_allocated mf \<and>
           (\<forall>q. \<not> (unat p - 8 \<le> q \<and> q < unat p + 8) \<and> \<not> (24 \<le> q \<and> q < 32) \<longrightarrow>
                  mem mf' q = mem mf q) \<and>
           mmap_base mf' = mmap_base mf \<and> mmap_size mf' = mmap_size mf \<and>
           file_len mf' = file_len mf \<and>
           memfile_free mf 0 = Inr mf"
proof -
  let ?mf' = "set_hdr_free_list_head
                (mf\<lparr>mem := wr64 (mem mf) (unat p) (hdr_free_list_head mf)\<rparr>) (p - 8)"
  have r: "memfile_free mf p = Inr ?mf'"
    using assms by (intro free_result) simp_all
  have a: "32 \<le> unat p" using assms(1) by simp
  have 1: "rd64 (mem ?mf') (unat p - 8) = rd64 (mem mf) (unat p - 8)"
    using assms(1) by simp
  have 2: "rd64 (mem ?mf') (unat p) = hdr_free_list_head mf"
    using assms(1) by simp
  have 3: "hdr_free_list_head ?mf' = p - 8" by simp
  have 4: "hdr_magic ?mf' = hdr_magic mf" "hdr_version ?mf' = hdr_version mf"
    "hdr_file_size ?mf' = hdr_file_size mf" "hdr_allocated ?mf' = hdr_allocated mf"
    using a by simp_all
  have 5: "\<forall>q. \<not> (unat p - 8 \<le> q \<and> q < unat p + 8) \<and> \<not> (24 \<le> q \<and> q < 32) \<longrightarrow>
             mem ?mf' q = mem mf q"
  proof (intro allI impI)
    fix q
    assume q: "\<not> (unat p - 8 \<le> q \<and> q < unat p + 8) \<and> \<not> (24 \<le> q \<and> q < 32)"
    then have "q < 24 \<or> 24 + 8 \<le> q" by arith
    moreover from q assms(1) have "q < unat p \<or> unat p + 8 \<le> q" by arith
    ultimately show "mem ?mf' q = mem mf q" by (simp add: wr64_outside)
  qed
  have 6: "memfile_free mf 0 = Inr mf" by (simp add: memfile_free_def)
  show ?thesis
    using r 1 2 3 4 5 6 by (intro exI[of _ ?mf']) simp
qed

lemma one_live_fields [simp]:
  "mmap_size one_live = 4096" "hdr_free_list_head one_live = 0" "hdr_allocated one_live = 144"
  "rd64 (mem one_live) 32 = 112"
  by (simp_all add: one_live_def)

text \<open>The block at 32 of \<open>one_live\<close>, freed through its offset 40.\<close>

lemma free_frame_one_live:
  "40 \<le> unat (40 :: u64) \<and> unat (40 :: u64) + 8 \<le> unat (mmap_size one_live) \<and>
   (\<exists>mf'. memfile_free one_live 40 = Inr mf' \<and>
      rd64 (mem mf') (unat (40 :: u64) - 8) = rd64 (mem one_live) (unat (40 :: u64) - 8) \<and>
      rd64 (mem mf') (unat (40 :: u64)) = hdr_free_list_head one_live \<and>
      hdr_free_list_head mf' = 40 - 8 \<and>
      hdr_allocated mf' = hdr_allocated one_live)"
  using free_frame [of 40 one_live]
  by auto

text \<open>
  Reuse of a block whose 16-byte node lies in the mapping.  Let \<open>p\<close> be an offset of
  at least 40 with the 16 bytes from \<open>p - 8\<close> in the mapping, whose allocation header
  at \<open>p - 8\<close> stores the size \<open>s\<close>, a multiple of 8.  Then \<open>memfile_free\<close> succeeds and
  the \<open>memfile_alloc\<close> of \<open>s - 8\<close> bytes that follows returns exactly \<open>p\<close>, whatever the
  system calls would answer: the freed block is at the head of the list, fits, and is
  used whole.  The header at \<open>p - 8\<close> holds \<open>s\<close> again and \<open>free_list_head\<close> is what it
  was before the free.
\<close>

lemma free_then_alloc_reuses:
  assumes "40 \<le> unat p" and "unat p + 8 \<le> unat (mmap_size mf)"
    and "s = rd64 (mem mf) (unat p - 8)" and "s AND 7 = 0"
  shows "\<exists>mf1 mf2. memfile_free mf p = Inr mf1 \<and>
           memfile_alloc mf1 os (s - 8) = Some (Inr (mf2, p)) \<and>
           rd64 (mem mf2) (unat p - 8) = s \<and>
           hdr_free_list_head mf2 = hdr_free_list_head mf"
proof -
  let ?h = "p - 8"
  let ?mf1 = "set_hdr_free_list_head
                (mf\<lparr>mem := wr64 (mem mf) (unat p) (hdr_free_list_head mf)\<rparr>) ?h"
  let ?mf2 = "set_hdr_free_list_head ?mf1 (hdr_free_list_head mf)"
  have r: "memfile_free mf p = Inr ?mf1"
    using assms by (intro free_result) simp_all
  have h: "unat ?h = unat p - 8" using assms(1) by (simp add: unat_minus_8)
  have "0 < unat ?h" using assms(1) h by simp
  then have nz: "?h \<noteq> 0" by (simp add: unat_gt_0)
  have tot: "(s - 8 + sizeof_alloc + 7) AND NOT 7 = s"
    using round_up_multiple[OF assms(4)] by (simp add: sizeof_alloc_def)
  have sz: "rd64 (mem ?mf1) (unat p - 8) = s"
    using assms(1,3) by simp
  have nx: "rd64 (mem ?mf1) (unat p) = hdr_free_list_head mf"
    using assms(1) by simp
  have l0: "load_u64 ?mf1 (memfile_ptr ?mf1 ?h) 0 = Inr s"
    using load_u64_ptr[where off = ?h and mf = ?mf1 and k = 0] nz assms(1,2) h sz by simp
  have l8: "load_u64 ?mf1 (memfile_ptr ?mf1 ?h) 8 = Inr (hdr_free_list_head mf)"
    using load_u64_ptr[where off = ?h and mf = ?mf1 and k = 8] nz assms(1,2) h nx by simp
  have sz2: "rd64 (mem ?mf2) (unat p - 8) = s"
    using assms(1,3) by simp
  have "wr64 (mem ?mf2) (unat p - 8) s = mem ?mf2"
    using wr64_rd64_same[of "mem ?mf2" "unat p - 8"] unfolding sz2 .
  then have same: "?mf2\<lparr>mem := wr64 (mem ?mf2) (unat p - 8) s\<rparr> = ?mf2"
    by simp
  have "store_u64 ?mf2 (memfile_ptr ?mf2 ?h) 0 s =
          Inr (?mf2\<lparr>mem := wr64 (mem ?mf2) (unat ?h + 0) s\<rparr>)"
    using nz assms(2) h by (intro store_u64_ptr) simp_all
  then have st: "store_u64 ?mf2 (memfile_ptr ?mf2 ?h) 0 s = Inr ?mf2"
    unfolding h using same by simp
  have blk: "alloc_from_block ?mf1 s 0 ?h (memfile_ptr ?mf1 ?h) s = Inr (?mf2, p)"
    using st l8 by (simp add: alloc_from_block_def sizeof_free_def sizeof_alloc_def)
  have lp: "alloc_loop ?mf1 s 0 ?h = Some (Inr (Some (?mf2, p)))"
    using l0 blk nz by (subst alloc_loop.simps) simp
  have hfl: "hdr_free_list_head ?mf1 = ?h" by simp
  have al: "memfile_alloc ?mf1 os (s - 8) = Some (Inr (?mf2, p))"
    unfolding memfile_alloc_def Let_def tot hfl lp by simp
  have hd: "hdr_free_list_head ?mf2 = hdr_free_list_head mf" by simp
  show ?thesis
    using r al sz2 hd by blast
qed

text \<open>The 112-byte block at 32 of \<open>one_live\<close>: free 40, then allocate 104 bytes.\<close>

lemma free_then_alloc_reuses_one_live:
  "40 \<le> unat (40 :: u64) \<and> unat (40 :: u64) + 8 \<le> unat (mmap_size one_live) \<and>
   (112 :: u64) = rd64 (mem one_live) (unat (40 :: u64) - 8) \<and> (112 :: u64) AND 7 = 0 \<and>
   (\<exists>mf1 mf2. memfile_free one_live 40 = Inr mf1 \<and>
      memfile_alloc mf1 sys_ok (112 - 8) = Some (Inr (mf2, 40)))"
  using free_then_alloc_reuses [of 40 one_live 112 sys_ok]
  by auto

section \<open>The loops of coalescing\<close>

subsection \<open>Counting and collecting\<close>

lemma count_loop_chain:
  "free_chain mf off bs \<Longrightarrow> count_loop mf n off = Some (Inr (n + of_nat (length bs)))"
proof (induction bs arbitrary: n off)
  case Nil
  then show ?case by (subst count_loop.simps) simp
next
  case (Cons b bs)
  from Cons.prems have nz: "off \<noteq> 0" and fit: "unat off + 8 + 8 \<le> unat (mmap_size mf)"
    and rest: "free_chain mf (rd64 (mem mf) (unat off + 8)) bs"
    by auto
  have l: "load_u64 mf (memfile_ptr mf off) 8 = Inr (rd64 (mem mf) (unat off + 8))"
    by (rule load_u64_ptr[OF nz fit])
  have "count_loop mf n off = count_loop mf (n + 1) (rd64 (mem mf) (unat off + 8))"
    by (subst count_loop.simps) (simp add: nz l)
  also have "\<dots> = Some (Inr (n + 1 + of_nat (length bs)))"
    by (rule Cons.IH[OF rest])
  finally show ?case by (simp add: add.assoc)
qed

lemma collect_loop_chain:
  "free_chain mf off bs \<Longrightarrow> collect_loop mf (length bs) off = Inr bs"
proof (induction bs arbitrary: off)
  case Nil
  then show ?case by simp
next
  case (Cons b bs)
  from Cons.prems have nz: "off \<noteq> 0" and fit: "unat off + 16 \<le> unat (mmap_size mf)"
    and eq: "off = fst b" "rd64 (mem mf) (unat off) = snd b"
    and rest: "free_chain mf (rd64 (mem mf) (unat off + 8)) bs"
    by auto
  have l0: "load_u64 mf (memfile_ptr mf off) 0 = Inr (snd b)"
    using load_u64_ptr[where off = off and mf = mf and k = 0] nz fit eq by simp
  have l8: "load_u64 mf (memfile_ptr mf off) 8 = Inr (rd64 (mem mf) (unat off + 8))"
    using load_u64_ptr[where off = off and mf = mf and k = 8] nz fit by simp
  show ?case
    using Cons.IH[OF rest] eq(1) l0 l8 by (simp add: Let_def)
qed

subsection \<open>The insertion sort\<close>

lemma shift_loop_stop:
  "\<not> (0 \<le> j \<and> key < fst (bs ! nat j)) \<Longrightarrow> shift_loop bs j key = (bs, j)"
  by (subst shift_loop.simps) auto

lemma shift_loop_step:
  "0 \<le> j \<Longrightarrow> key < fst (bs ! nat j) \<Longrightarrow>
   shift_loop bs j key = shift_loop (bs[nat (j + 1) := bs ! nat j]) (j - 1) key"
  by (subst shift_loop.simps) simp

text \<open>
  Starting below index \<open>k\<close>, the inner loop stops at some \<open>k' - 1\<close>; storing an entry at
  \<open>k'\<close> then yields the array with that entry inserted at \<open>k'\<close> in place of the one at \<open>k\<close>.
\<close>

lemma shift_loop_spec:
  assumes "k < length bs"
  shows "\<exists>k'. k' \<le> k \<and> snd (shift_loop bs (int k - 1) key) = int k' - 1 \<and>
           (fst (shift_loop bs (int k - 1) key))[k' := x] =
              take k' bs @ x # drop k' (take k bs) @ drop (Suc k) bs \<and>
           (\<forall>y \<in> set (drop k' (take k bs)). key < fst y) \<and>
           (0 < k' \<longrightarrow> fst (bs ! (k' - 1)) \<le> key)"
  using assms
proof (induction k arbitrary: bs)
  case 0
  have "shift_loop bs (int 0 - 1) key = (bs, int 0 - 1)"
    by (rule shift_loop_stop) simp
  moreover have "bs[0 := x] = x # drop (Suc 0) bs"
    using "0.prems" by (cases bs) simp_all
  ultimately show ?case by (intro exI[of _ 0]) simp
next
  case (Suc n)
  show ?case
  proof (cases "key < fst (bs ! n)")
    case False
    then have "shift_loop bs (int (Suc n) - 1) key = (bs, int (Suc n) - 1)"
      by (intro shift_loop_stop) simp
    moreover have "bs[Suc n := x] = take (Suc n) bs @ x # drop (Suc (Suc n)) bs"
      using Suc.prems by (simp add: upd_conv_take_nth_drop)
    ultimately show ?thesis
      using False by (intro exI[of _ "Suc n"]) simp
  next
    case True
    let ?bs1 = "bs[Suc n := bs ! n]"
    have st: "shift_loop bs (int (Suc n) - 1) key = shift_loop ?bs1 (int n - 1) key"
      using shift_loop_step[of "int (Suc n) - 1" key bs] True by (simp add: nat_add_distrib)
    have "n < length ?bs1" using Suc.prems by simp
    from Suc.IH[OF this] obtain k' where k': "k' \<le> n"
      and s: "snd (shift_loop ?bs1 (int n - 1) key) = int k' - 1"
      and e: "(fst (shift_loop ?bs1 (int n - 1) key))[k' := x] =
                take k' ?bs1 @ x # drop k' (take n ?bs1) @ drop (Suc n) ?bs1"
      and g: "\<forall>y \<in> set (drop k' (take n ?bs1)). key < fst y"
      and l: "0 < k' \<longrightarrow> fst (?bs1 ! (k' - 1)) \<le> key"
      by blast
    have t1: "take k' ?bs1 = take k' bs" using k' by simp
    have t2: "take n ?bs1 = take n bs" by simp
    have t3: "drop (Suc n) ?bs1 = bs ! n # drop (Suc (Suc n)) bs"
      using Suc.prems by (simp add: drop_update_cancel[symmetric] upd_conv_take_nth_drop del: drop_update_cancel)
    have t4: "drop k' (take (Suc n) bs) = drop k' (take n bs) @ [bs ! n]"
      using Suc.prems k' by (simp add: take_Suc_conv_app_nth)
    have t5: "0 < k' \<longrightarrow> ?bs1 ! (k' - 1) = bs ! (k' - 1)"
      using k' by auto
    have "(fst (shift_loop bs (int (Suc n) - 1) key))[k' := x] =
            take k' bs @ x # drop k' (take (Suc n) bs) @ drop (Suc (Suc n)) bs"
      unfolding st e t1 t2 t3 t4 by simp
    moreover have "\<forall>y \<in> set (drop k' (take (Suc n) bs)). key < fst y"
      unfolding t4 using g True by (simp add: t2)
    moreover have "0 < k' \<longrightarrow> fst (bs ! (k' - 1)) \<le> key"
      using l t5 by simp
    ultimately show ?thesis
      using k' s st by (intro exI[of _ k']) simp
  qed
qed


lemma sort_loop_stop: "\<not> i < n \<Longrightarrow> sort_loop bs i n = bs"
  by (subst sort_loop.simps) simp

lemma sort_loop_step:
  "i < n \<Longrightarrow>
   sort_loop bs i n =
     sort_loop ((fst (shift_loop bs (int i - 1) (fst (bs ! i))))
                  [nat (snd (shift_loop bs (int i - 1) (fst (bs ! i))) + 1) := bs ! i])
       (i + 1) n"
  by (subst sort_loop.simps) (simp add: Let_def)

text \<open>One round of the outer loop inserts entry \<open>i\<close> into the sorted prefix before it.\<close>

lemma sort_round:
  assumes "i < length bs" and "sorted (map fst (take i bs))"
  shows "\<exists>bs'. sort_loop bs i n = (if i < n then sort_loop bs' (Suc i) n else bs) \<and>
           length bs' = length bs \<and> mset bs' = mset bs \<and>
           sorted (map fst (take (Suc i) bs'))"
proof -
  let ?key = "fst (bs ! i)"
  let ?r = "shift_loop bs (int i - 1) ?key"
  from shift_loop_spec[OF assms(1), of ?key "bs ! i"] obtain k' where k': "k' \<le> i"
    and s: "snd ?r = int k' - 1"
    and e: "(fst ?r)[k' := bs ! i] = take k' bs @ bs ! i # drop k' (take i bs) @ drop (Suc i) bs"
    and g: "\<forall>y \<in> set (drop k' (take i bs)). ?key < fst y"
    and l: "0 < k' \<longrightarrow> fst (bs ! (k' - 1)) \<le> ?key"
    by blast
  let ?bs' = "take k' bs @ bs ! i # drop k' (take i bs) @ drop (Suc i) bs"
  have step: "i < n \<Longrightarrow> sort_loop bs i n = sort_loop ?bs' (Suc i) n"
    using sort_loop_step[of i n bs] s e by simp
  have a1: "take k' bs @ drop k' (take i bs) = take i bs"
    using k' by (metis append_take_drop_id min.absorb1 take_take)
  have a2: "take i bs @ bs ! i # drop (Suc i) bs = bs"
    by (rule id_take_nth_drop[OF assms(1), symmetric])
  have len: "length ?bs' = length bs"
    using assms(1) k' by simp
  have "mset ?bs' = mset ((take k' bs @ drop k' (take i bs)) @ bs ! i # drop (Suc i) bs)"
    by simp
  also have "\<dots> = mset bs"
    unfolding a1 a2 ..
  finally have ms: "mset ?bs' = mset bs" .
  have "length (take k' bs @ bs ! i # drop k' (take i bs)) = Suc i"
    using assms(1) k' by simp
  then have "take (Suc i) ((take k' bs @ bs ! i # drop k' (take i bs)) @ drop (Suc i) bs) =
               take k' bs @ bs ! i # drop k' (take i bs)"
    by (metis append_eq_conv_conj)
  then have tk: "take (Suc i) ?bs' = take k' bs @ bs ! i # drop k' (take i bs)"
    by simp
  have "sorted (map fst (take k' bs @ drop k' (take i bs)))"
    unfolding a1 by (rule assms(2))
  then have srt: "sorted (map fst (take k' bs) @ map fst (drop k' (take i bs)))"
    by simp
  have low: "\<forall>x \<in> set (take k' bs). fst x \<le> ?key"
  proof
    fix x assume "x \<in> set (take k' bs)"
    then obtain j where j: "j < k'" "x = bs ! j"
      using assms(1) k' by (auto simp: in_set_conv_nth)
    then have "0 < k'" by simp
    have "map fst (take i bs) ! j \<le> map fst (take i bs) ! (k' - 1)"
      using j k' assms(1) by (intro sorted_nth_mono[OF assms(2)]) auto
    then have "fst (bs ! j) \<le> fst (bs ! (k' - 1))"
      using j k' assms(1) by simp
    then show "fst x \<le> ?key" using l j \<open>0 < k'\<close> by auto
  qed
  have "sorted (map fst (take (Suc i) ?bs'))"
    unfolding tk using srt low g
    by (auto simp: sorted_append less_imp_le)
  then show ?thesis
    using step len ms assms(1) by (intro exI[of _ ?bs']) (simp add: sort_loop_stop)
qed

lemma sort_loop_spec:
  assumes "i \<le> length bs" and "sorted (map fst (take i bs))"
  shows "mset (sort_loop bs i (length bs)) = mset bs \<and>
         sorted (map fst (sort_loop bs i (length bs)))"
  using assms
proof (induction "length bs - i" arbitrary: bs i)
  case 0
  then show ?case by (simp add: sort_loop_stop)
next
  case (Suc d)
  then have i: "i < length bs" by simp
  from sort_round[OF i Suc.prems(2), of "length bs"] obtain bs' where
    st: "sort_loop bs i (length bs) = sort_loop bs' (Suc i) (length bs)"
    and len: "length bs' = length bs" and ms: "mset bs' = mset bs"
    and srt: "sorted (map fst (take (Suc i) bs'))"
    using i by auto
  have "d = length bs' - Suc i" using Suc.hyps(2) len by simp
  moreover have "Suc i \<le> length bs'" using i len by simp
  ultimately have "mset (sort_loop bs' (Suc i) (length bs')) = mset bs' \<and>
                   sorted (map fst (sort_loop bs' (Suc i) (length bs')))"
    using srt by (intro Suc.hyps(1))
  then show ?case using st len ms by simp
qed

text \<open>On an array already in order the sort changes nothing.\<close>

lemma sort_loop_sorted:
  assumes "sorted (map fst bs)" and "0 < i" and "n \<le> length bs"
  shows "sort_loop bs i n = bs"
  using assms
proof (induction "n - i" arbitrary: i)
  case 0
  then show ?case by (simp add: sort_loop_stop)
next
  case (Suc d)
  then have i: "i < n" "i < length bs" by simp_all
  have "map fst bs ! (i - 1) \<le> map fst bs ! i"
    using i Suc.prems by (intro sorted_nth_mono) auto
  then have le: "fst (bs ! (i - 1)) \<le> fst (bs ! i)"
    using i by simp
  have "nat (int i - 1) = i - 1" by simp
  then have "shift_loop bs (int i - 1) (fst (bs ! i)) = (bs, int i - 1)"
    using le by (intro shift_loop_stop) (simp add: not_less)
  then have "sort_loop bs i n = sort_loop (bs[i := bs ! i]) (i + 1) n"
    using sort_loop_step[of i n bs] i Suc.prems(2) by simp
  also have "\<dots> = sort_loop bs (Suc i) n" by simp
  also have "\<dots> = bs"
    using Suc.hyps(2) Suc.prems by (intro Suc.hyps(1)) simp_all
  finally show ?case .
qed

subsection \<open>The merge sweep\<close>

lemma merge_loop_stop: "\<not> i < n \<Longrightarrow> merge_loop bs i w n = (bs, w)"
  by (subst merge_loop.simps) simp

lemma merge_loop_join:
  "i < n \<Longrightarrow> 0 < w \<Longrightarrow> fst (bs ! (w - 1)) + snd (bs ! (w - 1)) = fst (bs ! i) \<Longrightarrow>
   merge_loop bs i w n =
     merge_loop (bs[w - 1 := (fst (bs ! (w - 1)), snd (bs ! (w - 1)) + snd (bs ! i))])
       (i + 1) w n"
  by (subst merge_loop.simps) simp

lemma merge_loop_keep:
  "i < n \<Longrightarrow> \<not> (0 < w \<and> fst (bs ! (w - 1)) + snd (bs ! (w - 1)) = fst (bs ! i)) \<Longrightarrow>
   merge_loop bs i w n =
     merge_loop (if w \<noteq> i then bs[w := bs ! i] else bs) (i + 1) (w + 1) n"
  by (subst merge_loop.simps) auto

text \<open>
  With \<open>w - 1\<close> finished entries, the entry at \<open>w - 1\<close> being extended and the entries from
  \<open>i\<close> on still to sweep, the loop leaves the finished entries followed by \<open>merge_adj\<close> of
  the rest in the first \<open>write_idx\<close> places.
\<close>

lemma merge_loop_spec:
  assumes "0 < w" and "w \<le> i" and "i \<le> length bs"
  shows "length (fst (merge_loop bs i w (length bs))) = length bs \<and>
         snd (merge_loop bs i w (length bs)) \<le> length bs \<and>
         take (snd (merge_loop bs i w (length bs))) (fst (merge_loop bs i w (length bs))) =
           take (w - 1) bs @ merge_adj (bs ! (w - 1)) (drop i bs)"
  using assms
proof (induction "length bs - i" arbitrary: bs i w)
  case 0
  then have "i = length bs" by simp
  moreover have "take w bs = take (w - 1) bs @ [bs ! (w - 1)]"
  proof -
    have "w - 1 < length bs" using "0.prems" by simp
    then have "take (Suc (w - 1)) bs = take (w - 1) bs @ [bs ! (w - 1)]"
      by (rule take_Suc_conv_app_nth)
    then show ?thesis using "0.prems"(1) by simp
  qed
  ultimately show ?case using "0.prems" by (simp add: merge_loop_stop)
next
  case (Suc d)
  then have i: "i < length bs" by simp
  have dr: "drop i bs = bs ! i # drop (Suc i) bs"
    using i by (simp add: Cons_nth_drop_Suc)
  show ?case
  proof (cases "fst (bs ! (w - 1)) + snd (bs ! (w - 1)) = fst (bs ! i)")
    case True
    let ?b = "(fst (bs ! (w - 1)), snd (bs ! (w - 1)) + snd (bs ! i))"
    let ?bs1 = "bs[w - 1 := ?b]"
    have st: "merge_loop bs i w (length bs) = merge_loop ?bs1 (Suc i) w (length ?bs1)"
      using merge_loop_join[OF i Suc.prems(1) True] by simp
    have "d = length ?bs1 - Suc i" using Suc.hyps(2) by simp
    then have ih: "length (fst (merge_loop ?bs1 (Suc i) w (length ?bs1))) = length ?bs1 \<and>
         snd (merge_loop ?bs1 (Suc i) w (length ?bs1)) \<le> length ?bs1 \<and>
         take (snd (merge_loop ?bs1 (Suc i) w (length ?bs1)))
              (fst (merge_loop ?bs1 (Suc i) w (length ?bs1))) =
           take (w - 1) ?bs1 @ merge_adj (?bs1 ! (w - 1)) (drop (Suc i) ?bs1)"
      using Suc.prems i by (intro Suc.hyps(1)) simp_all
    have 1: "take (w - 1) ?bs1 = take (w - 1) bs" by simp
    have 2: "?bs1 ! (w - 1) = ?b" using Suc.prems i by simp
    have 3: "drop (Suc i) ?bs1 = drop (Suc i) bs" using Suc.prems by simp
    have 4: "merge_adj (bs ! (w - 1)) (drop i bs) = merge_adj ?b (drop (Suc i) bs)"
      unfolding dr using True by simp
    show ?thesis
      using ih unfolding st 1 2 3 4 by simp
  next
    case False
    let ?bs1 = "if w \<noteq> i then bs[w := bs ! i] else bs"
    have st: "merge_loop bs i w (length bs) = merge_loop ?bs1 (Suc i) (Suc w) (length ?bs1)"
      using merge_loop_keep[OF i, of w bs] False by simp
    have "d = length ?bs1 - Suc i" using Suc.hyps(2) by auto
    then have ih: "length (fst (merge_loop ?bs1 (Suc i) (Suc w) (length ?bs1))) = length ?bs1 \<and>
         snd (merge_loop ?bs1 (Suc i) (Suc w) (length ?bs1)) \<le> length ?bs1 \<and>
         take (snd (merge_loop ?bs1 (Suc i) (Suc w) (length ?bs1)))
              (fst (merge_loop ?bs1 (Suc i) (Suc w) (length ?bs1))) =
           take (Suc w - 1) ?bs1 @ merge_adj (?bs1 ! (Suc w - 1)) (drop (Suc i) ?bs1)"
      using Suc.prems i by (intro Suc.hyps(1)) simp_all
    have 1: "take w ?bs1 = take (w - 1) bs @ [bs ! (w - 1)]"
      using Suc.prems i by (simp add: take_Suc_conv_app_nth[symmetric])
    have 2: "?bs1 ! w = bs ! i" using Suc.prems i by simp
    have 3: "drop (Suc i) ?bs1 = drop (Suc i) bs" using Suc.prems by simp
    have 4: "merge_adj (bs ! (w - 1)) (drop i bs) = bs ! (w - 1) # merge_adj (bs ! i) (drop (Suc i) bs)"
      unfolding dr using False by simp
    have len: "length ?bs1 = length bs" by simp
    show ?thesis
      using ih unfolding st 4 len by (simp add: 1 2 3)
  qed
qed

lemma merge_loop_start:
  assumes "0 < length bs"
  shows "length (fst (merge_loop bs 0 0 (length bs))) = length bs \<and>
         snd (merge_loop bs 0 0 (length bs)) \<le> length bs \<and>
         take (snd (merge_loop bs 0 0 (length bs))) (fst (merge_loop bs 0 0 (length bs))) =
           merge_adj (bs ! 0) (drop 1 bs)"
proof -
  have "merge_loop bs 0 0 (length bs) = merge_loop bs 1 1 (length bs)"
    using merge_loop_keep[of 0 "length bs" 0 bs] assms by simp
  moreover have "1 \<le> length bs" using assms by (cases bs) simp_all
  ultimately show ?thesis
    using merge_loop_spec[of 1 1 bs] by simp
qed

text \<open>Where no entry ends at the start of the next one the sweep changes nothing.\<close>

lemma merge_loop_apart:
  assumes "i \<le> n"
    and "\<And>k. 0 < k \<Longrightarrow> k < n \<Longrightarrow> fst (bs ! (k - 1)) + snd (bs ! (k - 1)) \<noteq> fst (bs ! k)"
  shows "merge_loop bs i i n = (bs, n)"
  using assms(1)
proof (induction "n - i" arbitrary: i)
  case 0
  then show ?case by (simp add: merge_loop_stop)
next
  case (Suc d)
  then have i: "i < n" by simp
  have "\<not> (0 < i \<and> fst (bs ! (i - 1)) + snd (bs ! (i - 1)) = fst (bs ! i))"
    using assms(2)[of i] i by auto
  then have "merge_loop bs i i n = merge_loop bs (Suc i) (Suc i) n"
    using merge_loop_keep[OF i, of i bs] by simp
  also have "\<dots> = (bs, n)"
    using Suc.hyps(2) i by (intro Suc.hyps(1)) simp_all
  finally show ?case .
qed

subsection \<open>What merging yields on sorted, disjoint blocks\<close>

lemma block_end_word:
  assumes "block_end b < 2 ^ 64"
  shows "unat (fst b + snd b) = block_end b"
  using assms no_wrap_sum[of "fst b" "snd b"] by (simp add: block_end_def)

lemma ascending_gaps_Cons:
  "ascending_gaps (b # bs) \<longleftrightarrow> (\<forall>y \<in> set bs. block_end b < unat (fst y)) \<and> ascending_gaps bs"
  by (simp add: ascending_gaps_def)

lemma merge_adj_props:
  assumes "sorted_wrt (\<lambda>a b. block_end a \<le> unat (fst b)) (b # cs)"
    and "\<forall>x \<in> set (b # cs). 32 \<le> unat (fst x) \<and> 16 \<le> unat (snd x) \<and> block_end x \<le> A"
    and "A < 2 ^ 64"
  shows "ascending_gaps (merge_adj b cs) \<and>
         (\<forall>x \<in> set (merge_adj b cs). 32 \<le> unat (fst x) \<and> 16 \<le> unat (snd x) \<and> block_end x \<le> A) \<and>
         merge_adj b cs \<noteq> [] \<and> fst (hd (merge_adj b cs)) = fst b \<and>
         length (merge_adj b cs) \<le> Suc (length cs)"
  using assms(1,2)
proof (induction cs arbitrary: b)
  case Nil
  then show ?case by (simp add: ascending_gaps_def)
next
  case (Cons c cs)
  have bA: "block_end b \<le> A" "32 \<le> unat (fst b)" "16 \<le> unat (snd b)"
    and cA: "block_end c \<le> A" "32 \<le> unat (fst c)" "16 \<le> unat (snd c)"
    using Cons.prems(2) by simp_all
  have bw: "unat (fst b + snd b) = block_end b"
    using bA(1) assms(3) by (intro block_end_word) simp
  have bc: "block_end b \<le> unat (fst c)"
    using Cons.prems(1) by simp
  have srt_c: "sorted_wrt (\<lambda>a b. block_end a \<le> unat (fst b)) (c # cs)"
    using Cons.prems(1) by simp
  have all_c: "\<forall>x \<in> set (c # cs). 32 \<le> unat (fst x) \<and> 16 \<le> unat (snd x) \<and> block_end x \<le> A"
    using Cons.prems(2) by simp
  show ?case
  proof (cases "fst b + snd b = fst c")
    case True
    let ?m = "(fst b, snd b + snd c)"
    have fc: "unat (fst c) = block_end b" using bw True by simp
    have "unat (snd b) + unat (snd c) \<le> block_end c"
      using fc by (simp add: block_end_def)
    then have "unat (snd b) + unat (snd c) < 2 ^ 64"
      using cA(1) assms(3) by simp
    then have sz: "unat (snd b + snd c) = unat (snd b) + unat (snd c)"
      by (rule no_wrap_sum)
    have me: "block_end ?m = block_end c"
      using fc sz by (simp add: block_end_def)
    have 1: "sorted_wrt (\<lambda>a b. block_end a \<le> unat (fst b)) (?m # cs)"
      using srt_c me by simp
    have 2: "\<forall>x \<in> set (?m # cs). 32 \<le> unat (fst x) \<and> 16 \<le> unat (snd x) \<and> block_end x \<le> A"
      using all_c me bA cA sz by simp
    have "merge_adj b (c # cs) = merge_adj ?m cs" using True by simp
    then show ?thesis using Cons.IH[OF 1 2] by simp
  next
    case False
    then have ne: "block_end b \<noteq> unat (fst c)"
      using bw by (metis word_unat_eq_iff)
    from Cons.IH[OF srt_c all_c] have ih: "ascending_gaps (merge_adj c cs)"
      "\<forall>x \<in> set (merge_adj c cs). 32 \<le> unat (fst x) \<and> 16 \<le> unat (snd x) \<and> block_end x \<le> A"
      "merge_adj c cs \<noteq> []" "fst (hd (merge_adj c cs)) = fst c"
      "length (merge_adj c cs) \<le> Suc (length cs)"
      by simp_all
    obtain h t where ht: "merge_adj c cs = h # t"
      using ih(3) by (cases "merge_adj c cs") simp_all
    have fh: "fst h = fst c" using ih(4) ht by simp
    have gap: "\<forall>y \<in> set (h # t). block_end b < unat (fst y)"
    proof
      fix y assume y: "y \<in> set (h # t)"
      show "block_end b < unat (fst y)"
      proof (cases "y = h")
        case True
        then show ?thesis using bc ne fh by simp
      next
        case False
        then have "y \<in> set t" using y by simp
        then have "block_end h < unat (fst y)"
          using ih(1) ht by (simp add: ascending_gaps_Cons)
        moreover have "unat (fst h) \<le> block_end h" by (simp add: block_end_def)
        ultimately show ?thesis using bc fh by simp
      qed
    qed
    have "merge_adj b (c # cs) = b # h # t" using False ht by simp
    then show ?thesis
      using gap ih ht bA by (simp add: ascending_gaps_Cons)
  qed
qed

subsection \<open>Free lists in the mapping\<close>

lemma free_chain_cong:
  "mem mf' = mem mf \<Longrightarrow> mmap_size mf' = mmap_size mf \<Longrightarrow>
   free_chain mf' off bs = free_chain mf off bs"
  by (induction bs arbitrary: off) simp_all

lemma free_chain_head:
  "free_chain mf off bs \<Longrightarrow> off = (case bs of [] \<Rightarrow> 0 | c # cs \<Rightarrow> fst c)"
  by (cases bs) simp_all

lemma free_chain_last_next:
  "free_chain mf off bs \<Longrightarrow> bs \<noteq> [] \<Longrightarrow> rd64 (mem mf) (unat (fst (last bs)) + 8) = 0"
proof (induction bs arbitrary: off)
  case Nil
  then show ?case by simp
next
  case (Cons b bs)
  show ?case
  proof (cases bs)
    case Nil
    then show ?thesis using Cons.prems by auto
  next
    case (Cons c cs)
    then show ?thesis using Cons.IH[of "rd64 (mem mf) (unat off + 8)"] Cons.prems by auto
  qed
qed

lemma write_nodes_outside:
  "\<forall>b \<in> set bs. q < unat (fst b) \<or> unat (fst b) + 16 \<le> q \<Longrightarrow> write_nodes m bs q = m q"
proof (induction bs arbitrary: m)
  case Nil
  then show ?case by simp
next
  case (Cons b bs)
  have "q < unat (fst b) \<or> unat (fst b) + 16 \<le> q" using Cons.prems by simp
  then have "wr64 (wr64 m (unat (fst b)) (snd b)) (unat (fst b) + 8) v q = m q" for v
    by (auto simp: wr64_outside)
  then show ?case using Cons.IH Cons.prems by simp
qed

lemma rd64_write_nodes_outside:
  assumes "\<forall>b \<in> set bs. a + 8 \<le> unat (fst b) \<or> unat (fst b) + 16 \<le> a"
  shows "rd64 (write_nodes m bs) a = rd64 m a"
proof (rule rd64_cong)
  fix i :: nat assume "i < 8"
  then have "\<forall>b \<in> set bs. a + i < unat (fst b) \<or> unat (fst b) + 16 \<le> a + i"
    using assms by auto
  then show "write_nodes m bs (a + i) = m (a + i)" by (rule write_nodes_outside)
qed

text \<open>Writing back the nodes a chain already has changes no byte.\<close>

lemma write_nodes_same:
  "free_chain mf off bs \<Longrightarrow> write_nodes (mem mf) bs = mem mf"
proof (induction bs arbitrary: off)
  case Nil
  then show ?case by simp
next
  case (Cons b bs)
  from Cons.prems have eq: "off = fst b" and sz: "rd64 (mem mf) (unat (fst b)) = snd b"
    and rest: "free_chain mf (rd64 (mem mf) (unat (fst b) + 8)) bs"
    by auto
  have nx: "(case bs of [] \<Rightarrow> 0 | c # cs \<Rightarrow> fst c) = rd64 (mem mf) (unat (fst b) + 8)"
    using free_chain_head[OF rest] by simp
  have 1: "wr64 (mem mf) (unat (fst b)) (snd b) = mem mf"
    using wr64_rd64_same[of "mem mf" "unat (fst b)"] unfolding sz .
  have 2: "wr64 (mem mf) (unat (fst b) + 8) (case bs of [] \<Rightarrow> 0 | c # cs \<Rightarrow> fst c) = mem mf"
    unfolding nx by (rule wr64_rd64_same)
  show ?case using Cons.IH[OF rest] by (simp add: 1 2)
qed

text \<open>The nodes written for entries 16 bytes apart form a chain.\<close>

lemma write_nodes_chain:
  assumes "mem mf = write_nodes m bs"
    and "\<forall>b \<in> set bs. fst b \<noteq> 0 \<and> unat (fst b) + 16 \<le> unat (mmap_size mf)"
    and "sorted_wrt (\<lambda>a b. unat (fst a) + 16 \<le> unat (fst b)) bs"
  shows "free_chain mf (case bs of [] \<Rightarrow> 0 | c # cs \<Rightarrow> fst c) bs"
  using assms
proof (induction bs arbitrary: m)
  case Nil
  then show ?case by simp
next
  case (Cons b bs)
  let ?nx = "case bs of [] \<Rightarrow> 0 | c # cs \<Rightarrow> fst c"
  let ?m1 = "wr64 (wr64 m (unat (fst b)) (snd b)) (unat (fst b) + 8) ?nx"
  have mm: "mem mf = write_nodes ?m1 bs" using Cons.prems(1) by simp
  have later: "\<forall>c \<in> set bs. unat (fst b) + 16 \<le> unat (fst c)"
    using Cons.prems(3) by simp
  have "rd64 (mem mf) (unat (fst b)) = rd64 ?m1 (unat (fst b))"
    unfolding mm using later by (intro rd64_write_nodes_outside) auto
  then have sz: "rd64 (mem mf) (unat (fst b)) = snd b" by simp
  have "rd64 (mem mf) (unat (fst b) + 8) = rd64 ?m1 (unat (fst b) + 8)"
    unfolding mm using later by (intro rd64_write_nodes_outside) auto
  then have nx: "rd64 (mem mf) (unat (fst b) + 8) = ?nx" by simp
  have "free_chain mf ?nx bs"
    using Cons.prems(2,3) by (intro Cons.IH[OF mm]) simp_all
  then show ?case using sz nx Cons.prems(2) by simp
qed

subsection \<open>The rebuild loop\<close>

lemma rebuild_loop_stop: "\<not> i < w \<Longrightarrow> rebuild_loop mf bs i w = Inr mf"
  by (subst rebuild_loop.simps) simp

lemma rebuild_loop_spec:
  assumes "w \<le> length bs"
    and "\<forall>b \<in> set (drop i (take w bs)). fst b \<noteq> 0 \<and> unat (fst b) + 16 \<le> unat (mmap_size mf)"
  shows "rebuild_loop mf bs i w = Inr (mf\<lparr>mem := write_nodes (mem mf) (drop i (take w bs))\<rparr>)"
  using assms
proof (induction "w - i" arbitrary: mf i)
  case 0
  then show ?case by (simp add: rebuild_loop_stop)
next
  case (Suc d)
  then have i: "i < w" "i < length (take w bs)" by simp_all
  have dr: "drop i (take w bs) = bs ! i # drop (Suc i) (take w bs)"
    using Cons_nth_drop_Suc[OF i(2)] i(1) by simp
  have ok: "fst (bs ! i) \<noteq> 0" "unat (fst (bs ! i)) + 16 \<le> unat (mmap_size mf)"
    using Suc.prems(2) unfolding dr by simp_all
  let ?nx = "if i + 1 < w then fst (bs ! (i + 1)) else 0"
  have nx: "?nx = (case drop (Suc i) (take w bs) of [] \<Rightarrow> 0 | c # cs \<Rightarrow> fst c)"
  proof (cases "i + 1 < w")
    case True
    then have "Suc i < length (take w bs)" using Suc.prems(1) by simp
    from Cons_nth_drop_Suc[OF this] True show ?thesis by (simp add: Suc.prems(1)) (metis list.simps(5))
  next
    case False
    then show ?thesis using i by simp
  qed
  let ?mf1 = "mf\<lparr>mem := wr64 (mem mf) (unat (fst (bs ! i))) (snd (bs ! i))\<rparr>"
  let ?mf2 = "?mf1\<lparr>mem := wr64 (mem ?mf1) (unat (fst (bs ! i)) + 8) ?nx\<rparr>"
  have s1: "store_u64 mf (memfile_ptr mf (fst (bs ! i))) 0 (snd (bs ! i)) = Inr ?mf1"
    using store_u64_ptr[where off = "fst (bs ! i)" and mf = mf and k = 0] ok by simp
  have s2: "store_u64 ?mf1 (memfile_ptr mf (fst (bs ! i))) 8 ?nx = Inr ?mf2"
    using store_u64_ptr[where off = "fst (bs ! i)" and mf = ?mf1 and k = 8] ok by simp
  have st: "rebuild_loop mf bs i w = rebuild_loop ?mf2 bs (Suc i) w"
    using i(1) s1 s2 by (subst rebuild_loop.simps) (simp add: Let_def)
  have "rebuild_loop ?mf2 bs (Suc i) w =
          Inr (?mf2\<lparr>mem := write_nodes (mem ?mf2) (drop (Suc i) (take w bs))\<rparr>)"
  proof (rule Suc.hyps(1))
    show "d = w - Suc i" using Suc.hyps(2) by simp
    show "w \<le> length bs" by (rule Suc.prems(1))
    show "\<forall>b \<in> set (drop (Suc i) (take w bs)).
            fst b \<noteq> 0 \<and> unat (fst b) + 16 \<le> unat (mmap_size ?mf2)"
      using Suc.prems(2) unfolding dr by simp
  qed
  then show ?case
    unfolding st dr using nx by simp
qed

subsection \<open>Well-formed lists through the sort\<close>

lemma apart_sym: "apart a b \<Longrightarrow> apart b a"
  by (auto simp: apart_def)

lemma apart_pairs:
  "sorted_wrt apart bs \<Longrightarrow> x \<in> set bs \<Longrightarrow> y \<in> set bs \<Longrightarrow> x \<noteq> y \<Longrightarrow> apart x y"
  by (induction bs) (auto intro: apart_sym)

lemma apart_distinct:
  "sorted_wrt apart bs \<Longrightarrow> \<forall>x \<in> set bs. 0 < unat (snd x) \<Longrightarrow> distinct bs"
proof (induction bs)
  case Nil
  then show ?case by simp
next
  case (Cons b bs)
  have "\<not> apart b b" using Cons.prems(2) by (simp add: apart_def block_end_def)
  then have "b \<notin> set bs" using Cons.prems(1) by auto
  then show ?case using Cons by simp
qed

lemma sorted_blocks:
  assumes "wf_free_list mf bs" and "mset r = mset bs" and "sorted (map fst r)"
  shows "sorted_wrt (\<lambda>a b. block_end a \<le> unat (fst b)) r"
    and "\<forall>x \<in> set r. 32 \<le> unat (fst x) \<and> 16 \<le> unat (snd x) \<and>
                       block_end x \<le> unat (hdr_allocated mf)"
proof -
  have sr: "set r = set bs" using assms(2) by (rule mset_eq_setD)
  have all: "\<forall>x \<in> set bs. 32 \<le> unat (fst x) \<and> 16 \<le> unat (snd x) \<and>
                            block_end x \<le> unat (hdr_allocated mf)"
    using assms(1) by (simp add: wf_free_list_def list_all_iff)
  show 2: "\<forall>x \<in> set r. 32 \<le> unat (fst x) \<and> 16 \<le> unat (snd x) \<and>
                          block_end x \<le> unat (hdr_allocated mf)"
    using all sr by simp
  have ap: "sorted_wrt apart bs" using assms(1) by (simp add: wf_free_list_def)
  have "distinct bs" using ap all by (intro apart_distinct) auto
  then have dr: "distinct r" using mset_eq_imp_distinct_iff[OF assms(2)] by simp
  show "sorted_wrt (\<lambda>a b. block_end a \<le> unat (fst b)) r"
    unfolding sorted_wrt_iff_nth_less
  proof (intro allI impI)
    fix i j assume ij: "i < j" "j < length r"
    then have ne: "r ! i \<noteq> r ! j" using dr by (simp add: nth_eq_iff_index_eq)
    have "i < length r" using ij by simp
    then have "r ! i \<in> set r" "r ! j \<in> set r" using ij(2) by simp_all
    then have mem: "r ! i \<in> set bs" "r ! j \<in> set bs" unfolding sr .
    have "apart (r ! i) (r ! j)" by (rule apart_pairs[OF ap mem ne])
    moreover have "map fst r ! i \<le> map fst r ! j"
      using ij by (intro sorted_nth_mono[OF assms(3)]) simp_all
    then have "unat (fst (r ! i)) \<le> unat (fst (r ! j))"
      using ij by (simp add: word_le_nat_alt)
    moreover have "16 \<le> unat (snd (r ! j))" using all mem(2) by simp
    ultimately show "block_end (r ! i) \<le> unat (fst (r ! j))"
      unfolding apart_def block_end_def by linarith
  qed
qed


text \<open>Merging keeps the start offsets within those given and the total size.\<close>

lemma merge_adj_sizes:
  assumes "sorted_wrt (\<lambda>a b. block_end a \<le> unat (fst b)) (b # cs)"
    and "\<forall>x \<in> set (b # cs). block_end x \<le> A"
    and "A < 2 ^ 64"
  shows "sum_list (map (\<lambda>x. unat (snd x)) (merge_adj b cs)) =
           sum_list (map (\<lambda>x. unat (snd x)) (b # cs)) \<and>
         fst ` set (merge_adj b cs) \<subseteq> fst ` set (b # cs)"
  using assms(1,2)
proof (induction cs arbitrary: b)
  case Nil
  then show ?case by simp
next
  case (Cons c cs)
  have bA: "block_end b \<le> A" and cA: "block_end c \<le> A"
    using Cons.prems(2) by simp_all
  have bw: "unat (fst b + snd b) = block_end b"
    using bA assms(3) by (intro block_end_word) simp
  have srt_c: "sorted_wrt (\<lambda>a b. block_end a \<le> unat (fst b)) (c # cs)"
    using Cons.prems(1) by simp
  have all_c: "\<forall>x \<in> set (c # cs). block_end x \<le> A"
    using Cons.prems(2) by simp
  show ?case
  proof (cases "fst b + snd b = fst c")
    case True
    let ?m = "(fst b, snd b + snd c)"
    have fc: "unat (fst c) = block_end b" using bw True by simp
    have "unat (snd b) + unat (snd c) \<le> block_end c"
      using fc by (simp add: block_end_def)
    then have "unat (snd b) + unat (snd c) < 2 ^ 64"
      using cA assms(3) by simp
    then have sz: "unat (snd b + snd c) = unat (snd b) + unat (snd c)"
      by (rule no_wrap_sum)
    have me: "block_end ?m = block_end c"
      using fc sz by (simp add: block_end_def)
    have 1: "sorted_wrt (\<lambda>a b. block_end a \<le> unat (fst b)) (?m # cs)"
      using srt_c me by simp
    have 2: "\<forall>x \<in> set (?m # cs). block_end x \<le> A"
      using all_c me by simp
    have "merge_adj b (c # cs) = merge_adj ?m cs" using True by simp
    then show ?thesis using Cons.IH[OF 1 2] sz by auto
  next
    case False
    then have "merge_adj b (c # cs) = b # merge_adj c cs" by simp
    then show ?thesis using Cons.IH[OF srt_c all_c] by auto
  qed
qed

lemma sum_list_mset_cong:
  assumes "mset r = mset bs"
  shows "sum_list (map f r) = (sum_list (map f bs) :: nat)"
proof -
  have "sum_mset (mset (map f r)) = sum_mset (mset (map f bs))"
    using assms by simp
  then show ?thesis by (simp only: sum_mset_sum_list)
qed

subsection \<open>The whole of \<open>memfile_coalesce\<close>\<close>

lemma unat_count:
  assumes "n < 2 ^ 31"
  shows "unat (of_nat n :: u32) = n"
proof -
  have "n < 2 ^ 32" using assms by simp
  then show ?thesis by (simp add: unat_of_nat)
qed

text \<open>Fewer than two nodes: \<open>memfile_coalesce\<close> returns at once.\<close>

lemma coalesce_short:
  assumes "free_chain mf (hdr_free_list_head mf) bs" and "length bs < 2"
  shows "memfile_coalesce mf os = Some (Inr mf)"
proof (cases bs)
  case Nil
  then have "hdr_free_list_head mf = 0" using assms(1) by simp
  then show ?thesis by (simp add: memfile_coalesce_def)
next
  case (Cons b cs)
  then have l: "length bs = 1" using assms(2) by simp
  have "count_loop mf 0 (hdr_free_list_head mf) = Some (Inr (0 + of_nat (length bs)))"
    by (rule count_loop_chain[OF assms(1)])
  then have "count_loop mf 0 (hdr_free_list_head mf) = Some (Inr 1)"
    unfolding l by simp
  then show ?thesis by (simp add: memfile_coalesce_def)
qed

text \<open>
  Two or more nodes: the state after \<open>memfile_coalesce\<close>, in terms of the sorted array
  and the entries the merge sweep leaves.
\<close>

lemma coalesce_long:
  assumes ch: "free_chain mf (hdr_free_list_head mf) bs"
    and len: "2 \<le> length bs" "length bs < 2 ^ 31"
    and ok: "malloc_ok os"
    and r: "r = sort_loop bs 1 (length bs)"
    and m: "m = merge_loop r 0 0 (length bs)"
  shows "memfile_coalesce mf os =
           Some (rebuild_loop (set_hdr_free_list_head mf (fst (fst m ! 0))) (fst m) 0 (snd m))"
proof -
  let ?n = "length bs"
  have hz: "hdr_free_list_head mf \<noteq> 0"
    using ch len(1) by (cases bs) auto
  have cnt: "count_loop mf 0 (hdr_free_list_head mf) = Some (Inr (of_nat ?n))"
    using count_loop_chain[OF ch, of 0] by simp
  have un: "unat (of_nat ?n :: u32) = ?n" by (rule unat_count[OF len(2)])
  have ge: "\<not> (of_nat ?n :: u32) < 2"
    using un len(1) by (simp add: word_less_nat_alt)
  have le: "\<not> 2 ^ 31 + 1 < unat (of_nat ?n :: u32)"
    unfolding un using len(2) by simp
  have col: "collect_loop mf ?n (hdr_free_list_head mf) = Inr bs"
    by (rule collect_loop_chain[OF ch])
  show ?thesis
    unfolding memfile_coalesce_def cnt
    using hz ge le ok col by (simp add: un Let_def r m)
qed

lemma coalesce_result:
  assumes wf: "wf_free_list mf bs" and ok: "malloc_ok os"
  shows "\<exists>mf' ys. memfile_coalesce mf os = Some (Inr mf') \<and>
           free_chain mf' (hdr_free_list_head mf') ys \<and> ascending_gaps ys \<and>
           length ys \<le> length bs \<and> (bs \<noteq> [] \<longrightarrow> ys \<noteq> []) \<and>
           mmap_size mf' = mmap_size mf \<and>
           fst ` set ys \<subseteq> fst ` set bs \<and>
           sum_list (map (\<lambda>x. unat (snd x)) ys) = sum_list (map (\<lambda>x. unat (snd x)) bs)"
proof (cases "length bs < 2")
  case True
  have ch: "free_chain mf (hdr_free_list_head mf) bs"
    using wf by (simp add: wf_free_list_def)
  have "ascending_gaps bs"
    unfolding ascending_gaps_def using True by (intro sorted_wrt01) simp
  then show ?thesis
    using coalesce_short[OF ch True] ch by blast
next
  case False
  let ?n = "length bs"
  let ?A = "unat (hdr_allocated mf)"
  have ch: "free_chain mf (hdr_free_list_head mf) bs"
    and lim: "?n < 2 ^ 31" and Am: "?A \<le> unat (mmap_size mf)"
    using wf by (simp_all add: wf_free_list_def)
  have n2: "2 \<le> ?n" using False by simp
  define r where "r = sort_loop bs 1 ?n"
  define m where "m = merge_loop r 0 0 ?n"
  have "sorted (map fst (take 1 bs))" by (cases bs) simp_all
  then have sr: "mset r = mset bs" "sorted (map fst r)"
    unfolding r_def using n2 sort_loop_spec[of 1 bs] by simp_all
  have lr: "length r = ?n" using sr(1) by (rule mset_eq_length)
  have R: "sorted_wrt (\<lambda>a b. block_end a \<le> unat (fst b)) r"
    and P: "\<forall>x \<in> set r. 32 \<le> unat (fst x) \<and> 16 \<le> unat (snd x) \<and> block_end x \<le> ?A"
    using sorted_blocks[OF wf sr] by simp_all
  have rne: "0 < length r" using lr n2 by linarith
  then have rsplit: "r = r ! 0 # drop 1 r"
    by (cases r) simp_all
  define ys where "ys = merge_adj (r ! 0) (drop 1 r)"
  have ml: "length (fst m) = length r" "snd m \<le> length r" "take (snd m) (fst m) = ys"
    unfolding m_def ys_def using merge_loop_start[OF rne] lr by simp_all
  have R': "sorted_wrt (\<lambda>a b. block_end a \<le> unat (fst b)) (r ! 0 # drop 1 r)"
    using R rsplit by simp
  have P': "\<forall>x \<in> set (r ! 0 # drop 1 r). 32 \<le> unat (fst x) \<and> 16 \<le> unat (snd x) \<and>
              block_end x \<le> ?A"
    using P rsplit by simp
  have A64: "?A < 2 ^ 64" using unsigned_less[of "hdr_allocated mf", where 'a = nat] by simp
  from merge_adj_props[OF R' P' A64]
  have gaps: "ascending_gaps ys"
    and Py: "\<forall>x \<in> set ys. 32 \<le> unat (fst x) \<and> 16 \<le> unat (snd x) \<and> block_end x \<le> ?A"
    and yne: "ys \<noteq> []" and ylen: "length ys \<le> Suc (length (drop 1 r))"
    unfolding ys_def by simp_all
  have wlen: "length ys = snd m"
    using ml by (metis length_take min.absorb2)
  have "0 < length ys" using yne by simp
  then have w0: "0 < snd m" unfolding wlen .
  have h0: "fst m ! 0 = hd ys"
    using ml(3) w0 yne by (metis hd_conv_nth nth_take)
  let ?mf1 = "set_hdr_free_list_head mf (fst (hd ys))"
  have valid: "\<forall>b \<in> set ys. fst b \<noteq> 0 \<and> unat (fst b) + 16 \<le> unat (mmap_size ?mf1)"
  proof
    fix b assume "b \<in> set ys"
    then have b: "32 \<le> unat (fst b)" "16 \<le> unat (snd b)" "block_end b \<le> ?A"
      using Py by simp_all
    have "0 < unat (fst b)" using b(1) by simp
    then have "fst b \<noteq> 0" by (simp add: unat_gt_0)
    moreover have "unat (fst b) + 16 \<le> unat (mmap_size ?mf1)"
      using b Am by (simp add: block_end_def)
    ultimately show "fst b \<noteq> 0 \<and> unat (fst b) + 16 \<le> unat (mmap_size ?mf1)" by simp
  qed
  have "snd m \<le> length (fst m)" using ml by simp
  moreover have "\<forall>b \<in> set (drop 0 (take (snd m) (fst m))).
                  fst b \<noteq> 0 \<and> unat (fst b) + 16 \<le> unat (mmap_size ?mf1)"
    using valid ml(3) by simp
  ultimately have rb: "rebuild_loop ?mf1 (fst m) 0 (snd m) =
      Inr (?mf1\<lparr>mem := write_nodes (mem ?mf1) (drop 0 (take (snd m) (fst m)))\<rparr>)"
    by (rule rebuild_loop_spec)
  let ?mf' = "?mf1\<lparr>mem := write_nodes (mem ?mf1) ys\<rparr>"
  have res: "memfile_coalesce mf os = Some (Inr ?mf')"
    using coalesce_long[OF ch n2 lim ok r_def m_def] rb ml(3) h0 by simp
  have sep: "sorted_wrt (\<lambda>a b. unat (fst a) + 16 \<le> unat (fst b)) ys"
  proof (rule sorted_wrt_mono_rel[OF _ gaps[unfolded ascending_gaps_def]])
    fix a b :: block assume "a \<in> set ys" and "block_end a < unat (fst b)"
    then show "unat (fst a) + 16 \<le> unat (fst b)"
      using Py by (auto simp: block_end_def)
  qed
  have "free_chain ?mf' (case ys of [] \<Rightarrow> 0 | c # cs \<Rightarrow> fst c) ys"
    using valid sep by (intro write_nodes_chain[where m = "mem ?mf1"]) simp_all
  then have fc: "free_chain ?mf' (fst (hd ys)) ys"
    using yne by (cases ys) simp_all
  have "rd64 (write_nodes (mem ?mf1) ys) 24 = rd64 (mem ?mf1) 24"
    using Py by (intro rd64_write_nodes_outside) auto
  then have hd: "hdr_free_list_head ?mf' = fst (hd ys)"
    by (simp add: hdr_free_list_head_def)
  have "length (drop 1 r) = ?n - 1" using lr by simp
  then have yl: "length ys \<le> ?n" using ylen n2 by linarith
  have PA: "\<forall>x \<in> set (r ! 0 # drop 1 r). block_end x \<le> ?A"
    using P' by simp
  from merge_adj_sizes[OF R' PA A64]
  have "sum_list (map (\<lambda>x. unat (snd x)) ys) = sum_list (map (\<lambda>x. unat (snd x)) (r ! 0 # drop 1 r))"
    and "fst ` set ys \<subseteq> fst ` set (r ! 0 # drop 1 r)"
    unfolding ys_def by simp_all
  then have "sum_list (map (\<lambda>x. unat (snd x)) ys) = sum_list (map (\<lambda>x. unat (snd x)) r)"
    and "fst ` set ys \<subseteq> fst ` set r"
    unfolding rsplit[symmetric] by simp_all
  then have cons: "sum_list (map (\<lambda>x. unat (snd x)) ys) = sum_list (map (\<lambda>x. unat (snd x)) bs)"
    "fst ` set ys \<subseteq> fst ` set bs"
    using sum_list_mset_cong[OF sr(1)] mset_eq_setD[OF sr(1)] by simp_all
  show ?thesis
    using res fc gaps yne hd yl cons by (intro exI[of _ ?mf'] exI[of _ ys]) simp
qed

lemma free_chain_valid:
  "free_chain mf off bs \<Longrightarrow>
   \<forall>b \<in> set bs. fst b \<noteq> 0 \<and> unat (fst b) + 16 \<le> unat (mmap_size mf)"
  by (induction bs arbitrary: off) auto

text \<open>A list already in ascending order with gaps is left exactly as it is.\<close>

lemma coalesce_noop:
  assumes ch: "free_chain mf (hdr_free_list_head mf) ys" and gaps: "ascending_gaps ys"
    and lim: "length ys < 2 ^ 31" and ok: "malloc_ok os"
  shows "memfile_coalesce mf os = Some (Inr mf)"
proof (cases "length ys < 2")
  case True
  then show ?thesis by (rule coalesce_short[OF ch])
next
  case False
  let ?n = "length ys"
  have n2: "2 \<le> ?n" using False by simp
  have nth: "block_end (ys ! i) < unat (fst (ys ! j))" if "i < j" "j < ?n" for i j
    using gaps that unfolding ascending_gaps_def by (simp add: sorted_wrt_iff_nth_less)
  have "sorted_wrt (\<lambda>a b. fst a \<le> fst b) ys"
  proof (rule sorted_wrt_mono_rel[OF _ gaps[unfolded ascending_gaps_def]])
    fix a b :: block assume "block_end a < unat (fst b)"
    then show "fst a \<le> fst b" by (simp add: block_end_def word_le_nat_alt)
  qed
  then have srt: "sorted (map fst ys)" by (simp add: sorted_map)
  have s: "sort_loop ys 1 ?n = ys"
    using srt by (intro sort_loop_sorted) simp_all
  have na: "fst (ys ! (k - 1)) + snd (ys ! (k - 1)) \<noteq> fst (ys ! k)" if "0 < k" "k < ?n" for k
  proof -
    have lt: "block_end (ys ! (k - 1)) < unat (fst (ys ! k))"
      using that by (intro nth) simp_all
    moreover have "unat (fst (ys ! k)) < 2 ^ 64"
      using unsigned_less[of "fst (ys ! k)", where 'a = nat] by simp
    ultimately have "block_end (ys ! (k - 1)) < 2 ^ 64" by simp
    then have "unat (fst (ys ! (k - 1)) + snd (ys ! (k - 1))) = block_end (ys ! (k - 1))"
      by (rule block_end_word)
    then show ?thesis using lt by auto
  qed
  have mg: "merge_loop ys 0 0 ?n = (ys, ?n)"
    using na by (intro merge_loop_apart) simp_all
  have hd: "hdr_free_list_head mf = fst (ys ! 0)"
    using ch n2 by (cases ys) auto
  have "wr64 (mem mf) 24 (fst (ys ! 0)) = mem mf"
    unfolding hd[unfolded hdr_free_list_head_def, symmetric] by (rule wr64_rd64_same)
  then have same: "set_hdr_free_list_head mf (fst (ys ! 0)) = mf"
    by (simp add: set_hdr_free_list_head_def)
  have valid: "\<forall>b \<in> set ys. fst b \<noteq> 0 \<and> unat (fst b) + 16 \<le> unat (mmap_size mf)"
    by (rule free_chain_valid[OF ch])
  have "rebuild_loop mf ys 0 ?n = Inr (mf\<lparr>mem := write_nodes (mem mf) (drop 0 (take ?n ys))\<rparr>)"
    using valid by (intro rebuild_loop_spec) simp_all
  then have rb: "rebuild_loop mf ys 0 ?n = Inr mf"
    using write_nodes_same[OF ch] by simp
  have "memfile_coalesce mf os =
          Some (rebuild_loop
                  (set_hdr_free_list_head mf
                     (fst (fst (merge_loop (sort_loop ys 1 ?n) 0 0 ?n) ! 0)))
                  (fst (merge_loop (sort_loop ys 1 ?n) 0 0 ?n)) 0
                  (snd (merge_loop (sort_loop ys 1 ?n) 0 0 ?n)))"
    by (rule coalesce_long[OF ch n2 lim ok refl refl])
  then show ?thesis
    unfolding s mg fst_conv snd_conv same rb .
qed

section \<open>Coalescing: order, gaps and idempotence\<close>

lemma put_free_node_fields [simp]:
  "mmap_size (put_free_node mf off s nxt) = mmap_size mf"
  "mem (put_free_node mf off s nxt) = wr64 (wr64 (mem mf) (unat off) s) (unat off + 8) nxt"
  by (simp_all add: put_free_node_def)

lemma three_free_fields:
  "mmap_size three_free = 4096"
  "hdr_free_list_head three_free = 256"
  "hdr_allocated three_free = 368"
  "rd64 (mem three_free) 256 = 112" "rd64 (mem three_free) 264 = 32"
  "rd64 (mem three_free) 32 = 112" "rd64 (mem three_free) 40 = 144"
  "rd64 (mem three_free) 144 = 112" "rd64 (mem three_free) 152 = 0"
  by (simp_all add: three_free_def hdr_free_list_head_def hdr_allocated_def)

lemma three_free_wf: "wf_free_list three_free [(256, 112), (32, 112), (144, 112)]"
  by (simp add: wf_free_list_def three_free_fields apart_def block_end_def)


lemma ascending_gaps_order:
  assumes "ascending_gaps ys"
  shows "sorted_wrt (\<lambda>a b. fst a < fst b) ys"
proof (rule sorted_wrt_mono_rel[OF _ assms[unfolded ascending_gaps_def]])
  fix a b :: block assume "block_end a < unat (fst b)"
  then show "fst a < fst b" by (simp add: block_end_def word_less_nat_alt)
qed

lemma ascending_gaps_head_least:
  assumes "ascending_gaps ys" and "y \<in> set ys"
  shows "fst (hd ys) \<le> fst y"
proof (cases ys)
  case Nil
  then show ?thesis using assms(2) by simp
next
  case (Cons h t)
  have "sorted_wrt (\<lambda>a b. fst a < fst b) (h # t)"
    using ascending_gaps_order[OF assms(1)] Cons by simp
  then have "\<forall>z \<in> set t. fst h < fst z" by simp
  then show ?thesis using assms(2) Cons by auto
qed

text \<open>
  Claim C4.  On a well-formed free list, with \<open>malloc\<close> succeeding, \<open>memfile_coalesce\<close>
  returns, and the list then found in the mapping from \<open>free_list_head\<close> is a chain \<open>ys\<close>
  ended by \<open>next = 0\<close> whose offsets are strictly ascending, in which every block ends
  strictly below the start of each later one (for consecutive blocks:
  \<open>a.offset + a.size < b.offset\<close>, without wrap-around), whose last node has \<open>next = 0\<close>
  and whose first node, the one \<open>free_list_head\<close> holds, has the lowest offset.  A
  non-empty list stays non-empty; the surviving blocks start at offsets of the given
  blocks and hold the same number of bytes in total.
\<close>

theorem coalesce_sorted_no_adjacent:
  assumes "wf_free_list mf bs" and "malloc_ok os"
  shows "\<exists>mf' ys. memfile_coalesce mf os = Some (Inr mf') \<and>
           free_chain mf' (hdr_free_list_head mf') ys \<and>
           sorted_wrt (\<lambda>a b. fst a < fst b) ys \<and>
           (\<forall>i. Suc i < length ys \<longrightarrow>
                  unat (fst (ys ! i)) + unat (snd (ys ! i)) < unat (fst (ys ! Suc i))) \<and>
           (ys \<noteq> [] \<longrightarrow>
              rd64 (mem mf') (unat (fst (last ys)) + 8) = 0 \<and>
              hdr_free_list_head mf' = fst (hd ys) \<and>
              (\<forall>y \<in> set ys. fst (hd ys) \<le> fst y)) \<and>
           (bs \<noteq> [] \<longrightarrow> ys \<noteq> []) \<and>
           fst ` set ys \<subseteq> fst ` set bs \<and>
           sum_list (map (\<lambda>x. unat (snd x)) ys) = sum_list (map (\<lambda>x. unat (snd x)) bs)"
proof -
  from coalesce_result[OF assms] obtain mf' ys where
    res: "memfile_coalesce mf os = Some (Inr mf')"
    and ch: "free_chain mf' (hdr_free_list_head mf') ys"
    and gaps: "ascending_gaps ys" and ne: "bs \<noteq> [] \<longrightarrow> ys \<noteq> []"
    and cons: "fst ` set ys \<subseteq> fst ` set bs"
      "sum_list (map (\<lambda>x. unat (snd x)) ys) = sum_list (map (\<lambda>x. unat (snd x)) bs)"
    by blast
  have 1: "sorted_wrt (\<lambda>a b. fst a < fst b) ys"
    by (rule ascending_gaps_order[OF gaps])
  have 2: "\<forall>i. Suc i < length ys \<longrightarrow>
             unat (fst (ys ! i)) + unat (snd (ys ! i)) < unat (fst (ys ! Suc i))"
    using gaps unfolding ascending_gaps_def sorted_wrt_iff_nth_less block_end_def by simp
  have 3: "ys \<noteq> [] \<longrightarrow> rd64 (mem mf') (unat (fst (last ys)) + 8) = 0"
    using free_chain_last_next[OF ch] by simp
  have 4: "ys \<noteq> [] \<longrightarrow> hdr_free_list_head mf' = fst (hd ys)"
    using free_chain_head[OF ch] by (cases ys) simp_all
  have 5: "\<forall>y \<in> set ys. fst (hd ys) \<le> fst y"
    using ascending_gaps_head_least[OF gaps] by simp
  show ?thesis
    using res ch 1 2 3 4 5 ne cons by (intro exI[of _ mf'] exI[of _ ys]) simp
qed

text \<open>The three blocks at 32, 144 and 256, listed in the order 256, 32, 144.\<close>

theorem coalesce_sorted_no_adjacent_witness:
  "wf_free_list three_free [(256, 112), (32, 112), (144, 112)] \<and> malloc_ok sys_ok \<and>
   (\<exists>mf' ys. memfile_coalesce three_free sys_ok = Some (Inr mf') \<and>
      free_chain mf' (hdr_free_list_head mf') ys \<and>
      sorted_wrt (\<lambda>a b. fst a < fst b) ys \<and>
      (\<forall>i. Suc i < length ys \<longrightarrow>
             unat (fst (ys ! i)) + unat (snd (ys ! i)) < unat (fst (ys ! Suc i))) \<and>
      ys \<noteq> [] \<and> rd64 (mem mf') (unat (fst (last ys)) + 8) = 0 \<and>
      hdr_free_list_head mf' = fst (hd ys) \<and>
      sum_list (map (\<lambda>x. unat (snd x)) ys) = 336)"
proof -
  have ok: "malloc_ok sys_ok" by simp
  from coalesce_sorted_no_adjacent [OF three_free_wf ok] obtain mf' ys where
    r: "memfile_coalesce three_free sys_ok = Some (Inr mf')"
      "free_chain mf' (hdr_free_list_head mf') ys"
      "sorted_wrt (\<lambda>a b. fst a < fst b) ys"
      "\<forall>i. Suc i < length ys \<longrightarrow>
             unat (fst (ys ! i)) + unat (snd (ys ! i)) < unat (fst (ys ! Suc i))"
      "ys \<noteq> [] \<longrightarrow>
         rd64 (mem mf') (unat (fst (last ys)) + 8) = 0 \<and>
         hdr_free_list_head mf' = fst (hd ys) \<and> (\<forall>y \<in> set ys. fst (hd ys) \<le> fst y)"
      "[(256, 112), (32, 112), (144, 112)] \<noteq> ([] :: block list) \<longrightarrow> ys \<noteq> []"
      "sum_list (map (\<lambda>x. unat (snd x)) ys) =
         sum_list (map (\<lambda>x. unat (snd x)) [(256, 112), (32, 112), (144, 112 :: u64) :: block])"
    by blast
  from r(6) have ne: "ys \<noteq> []" by simp
  from r(7) have sm: "sum_list (map (\<lambda>x. unat (snd x)) ys) = 336" by simp
  show ?thesis
    using three_free_wf ok r(1-4) r(5)[rule_format, OF ne] ne sm
    by (intro conjI exI[of _ mf'] exI[of _ ys]) simp_all
qed

text \<open>
  Claim C8.  On a well-formed free list, with \<open>malloc\<close> succeeding, \<open>memfile_coalesce\<close>
  returns a state on which a second \<open>memfile_coalesce\<close> returns that very state: head,
  node offsets, sizes, links and every other byte are as after the first run.
\<close>

theorem coalesce_idempotent:
  assumes "wf_free_list mf bs" and "malloc_ok os"
  shows "\<exists>mf'. memfile_coalesce mf os = Some (Inr mf') \<and>
               memfile_coalesce mf' os = Some (Inr mf')"
proof -
  from coalesce_result[OF assms] obtain mf' ys where
    res: "memfile_coalesce mf os = Some (Inr mf')"
    and ch: "free_chain mf' (hdr_free_list_head mf') ys"
    and gaps: "ascending_gaps ys" and len: "length ys \<le> length bs"
    by blast
  have "length bs < 2 ^ 31" using assms(1) by (simp add: wf_free_list_def)
  then have "length ys < 2 ^ 31" using len by simp
  then have "memfile_coalesce mf' os = Some (Inr mf')"
    by (rule coalesce_noop[OF ch gaps _ assms(2)])
  then show ?thesis using res by blast
qed

theorem coalesce_idempotent_witness:
  "wf_free_list three_free [(256, 112), (32, 112), (144, 112)] \<and> malloc_ok sys_ok \<and>
   (\<exists>mf'. memfile_coalesce three_free sys_ok = Some (Inr mf') \<and>
          memfile_coalesce mf' sys_ok = Some (Inr mf'))"
proof -
  have ok: "malloc_ok sys_ok" by simp
  from coalesce_idempotent [OF three_free_wf ok]
  show ?thesis using three_free_wf ok by blast
qed

section \<open>Blocks too small for a free node\<close>

text \<open>The rounding always yields a multiple of 8.\<close>

lemma alloc_total_multiple_of_8:
  "((sz + sizeof_alloc + 7) AND NOT 7) AND 7 = (0 :: u64)"
proof -
  have "((sz + sizeof_alloc + 7) AND NOT 7) AND 7 = (sz + sizeof_alloc + 7) AND (NOT 7 AND 7)"
    by (simp only: and.assoc)
  then show ?thesis by simp
qed

text \<open>Bump allocation when the free list is empty and the file is large enough.\<close>

lemma alloc_bump:
  assumes "hdr_free_list_head mf = 0"
    and "t = (sz + sizeof_alloc + 7) AND NOT 7"
    and "hdr_allocated mf + t \<le> hdr_file_size mf"
    and "hdr_allocated mf \<noteq> 0" and "32 \<le> unat (hdr_allocated mf)"
    and "unat (hdr_allocated mf) + 8 \<le> unat (mmap_size mf)"
  shows "memfile_alloc mf os sz =
           Some (Inr (set_hdr_allocated
                        (mf\<lparr>mem := wr64 (mem mf) (unat (hdr_allocated mf)) t\<rparr>)
                        (hdr_allocated mf + t),
                      hdr_allocated mf + 8))"
proof -
  have 1: "alloc_loop mf t 0 0 = Some (Inr None)"
    by (subst alloc_loop.simps) simp
  have 2: "memfile_ensure_space mf os t = (0, mf)"
    using assms(3) by (simp add: memfile_ensure_space_def)
  have 3: "store_u64 mf (memfile_ptr mf (hdr_allocated mf)) 0 t =
             Inr (mf\<lparr>mem := wr64 (mem mf) (unat (hdr_allocated mf)) t\<rparr>)"
    using store_u64_ptr[where off = "hdr_allocated mf" and mf = mf and k = 0 and v = t] assms(4,6)
    by simp
  have 4: "hdr_allocated (mf\<lparr>mem := wr64 (mem mf) (unat (hdr_allocated mf)) t\<rparr>) = hdr_allocated mf"
    using assms(5) by simp
  show ?thesis
    unfolding memfile_alloc_def Let_def assms(2)[symmetric] assms(1) 1
    by (simp add: 2 3 4 sizeof_alloc_def)
qed

lemma fresh_file_mem:
  "rd64 (mem fresh_file) 8 = 4096" "rd64 (mem fresh_file) 16 = 32" "rd64 (mem fresh_file) 24 = 0"
  using fresh_file_fields(6-8)
  by (simp_all only: hdr_file_size_def hdr_allocated_def hdr_free_list_head_def)

text \<open>
  Two \<open>memfile_alloc\<close> of size 0 on the fresh file return 40 and 48 and leave the
  blocks of \<open>two_small\<close>.  Freeing the first block then writes the 16-byte free node
  over its 8 bytes and over the allocation header of the second block, whose size
  word changes from 8 to 0.
\<close>

lemma free_small_block_overwrites_neighbour:
  "memfile_alloc fresh_file sys_ok 0 =
     Some (Inr (set_hdr_allocated (fresh_file\<lparr>mem := wr64 (mem fresh_file) 32 8\<rparr>) 40, 40))"
  "memfile_alloc (set_hdr_allocated (fresh_file\<lparr>mem := wr64 (mem fresh_file) 32 8\<rparr>) 40) sys_ok 0 =
     Some (Inr (two_small, 48))"
  "rd64 (mem two_small) 40 = 8"
  "map_sum id (\<lambda>mf. rd64 (mem mf) 40) (memfile_free two_small 40) = Inr 0"
proof -
  have t: "(8 :: u64) = (0 + sizeof_alloc + 7) AND NOT 7" by (simp add: sizeof_alloc_def)
  show "memfile_alloc fresh_file sys_ok 0 =
     Some (Inr (set_hdr_allocated (fresh_file\<lparr>mem := wr64 (mem fresh_file) 32 8\<rparr>) 40, 40))"
    using alloc_bump[where mf = fresh_file and os = sys_ok and sz = 0 and t = 8, OF _ t] by simp
  let ?m1 = "set_hdr_allocated (fresh_file\<lparr>mem := wr64 (mem fresh_file) 32 8\<rparr>) 40"
  have a: "hdr_allocated ?m1 = 40" "hdr_free_list_head ?m1 = 0" "hdr_file_size ?m1 = 4096"
    "mmap_size ?m1 = 4096"
    by simp_all
  show "memfile_alloc ?m1 sys_ok 0 = Some (Inr (two_small, 48))"
    using alloc_bump[where mf = ?m1 and os = sys_ok and sz = 0 and t = 8, OF a(2) t]
    unfolding a by (simp add: two_small_def)
  show "rd64 (mem two_small) 40 = 8" by (simp add: two_small_def)
  have "mmap_size two_small = 4096" "hdr_free_list_head two_small = 0"
    by (simp_all add: two_small_def hdr_free_list_head_def fresh_file_mem)
  then show "map_sum id (\<lambda>mf. rd64 (mem mf) 40) (memfile_free two_small 40) = Inr 0"
    using free_result[of 40 two_small] by simp
qed

text \<open>
  \<open>memfile_alloc\<close> of 4048 bytes on the fresh file returns 40 and leaves \<open>almost_full\<close>;
  \<open>memfile_alloc\<close> of size 0 after it returns 4096, the size of the mapping, and leaves
  \<open>edge_small\<close>.
\<close>

lemma almost_full_reached:
  "memfile_alloc fresh_file sys_ok 4048 = Some (Inr (almost_full, 40))"
proof -
  have t: "(4056 :: u64) = (4048 + sizeof_alloc + 7) AND NOT 7" by (simp add: sizeof_alloc_def)
  show ?thesis
    using alloc_bump[where mf = fresh_file and os = sys_ok and sz = 4048 and t = 4056, OF _ t]
    by (simp add: almost_full_def)
qed

lemma almost_full_fields:
  "hdr_allocated almost_full = 4088" "hdr_free_list_head almost_full = 0"
  "hdr_file_size almost_full = 4096" "mmap_size almost_full = 4096"
  by (simp_all add: almost_full_def)

lemma edge_small_reached:
  "memfile_alloc almost_full sys_ok 0 = Some (Inr (edge_small, 4096))"
proof -
  have t: "(8 :: u64) = (0 + sizeof_alloc + 7) AND NOT 7" by (simp add: sizeof_alloc_def)
  show ?thesis
    using alloc_bump[where mf = almost_full and os = sys_ok and sz = 0 and t = 8,
        OF almost_full_fields(2) t]
    unfolding almost_full_fields by (simp add: edge_small_def)
qed

lemma edge_small_fields:
  "mmap_size edge_small = 4096" "rd64 (mem edge_small) 4088 = 8"
  by (simp_all add: edge_small_def almost_full_fields)

text \<open>
  Freeing the block at the end of the mapping: the size word of the node fits, its
  \<open>next\<close> word lies at bytes 4096 to 4103, past the mapping.
\<close>

lemma free_edge_small: "memfile_free edge_small 4096 = Inl Fault"
  by (simp add: memfile_free_def sizeof_alloc_def load_u64_def store_u64_def memfile_ptr_def
      edge_small_fields ptr_pos_def)

text \<open>
  Claim C5 at its failing input.  On the fresh 4096-byte file \<open>memfile_alloc\<close> of 4048
  bytes returns 40 and \<open>memfile_alloc\<close> of 0 bytes then returns \<open>p = 4096\<close>, with the size
  \<open>s = 8\<close> stored in the allocation header at \<open>p - 8 = 4088\<close>.  \<open>memfile_free\<close> of this \<open>p\<close>
  stores the \<open>next\<close> word of the free node past the end of the mapping: it faults, and
  no \<open>memfile_alloc\<close> of \<open>s - 8\<close> bytes follows that could return \<open>p\<close>.
\<close>

theorem reuse_fails_at_mapping_end:
  "memfile_alloc fresh_file sys_ok 4048 = Some (Inr (almost_full, 40)) \<and>
   memfile_alloc almost_full sys_ok 0 = Some (Inr (edge_small, 4096)) \<and>
   mmap_size edge_small = 4096 \<and>
   rd64 (mem edge_small) (unat (4096 - 8 :: u64)) = 8 \<and>
   memfile_free edge_small 4096 = Inl Fault"
  using almost_full_reached edge_small_reached edge_small_fields free_edge_small by simp

text \<open>
  Claim C9 at its failing inputs.  In \<open>edge_small\<close> the offset 4096 was returned by
  \<open>memfile_alloc\<close>, and \<open>memfile_free\<close> of it does not stay within the mapping: the \<open>next\<close>
  word of the node lies past its end.  In \<open>two_small\<close> the offsets 40 and 48 were
  returned by \<open>memfile_alloc\<close>, the block of 48 is live with its size 8 in the
  allocation header at 40, and \<open>memfile_free\<close> of 40 writes the \<open>next\<close> word of the node
  over that header, which then reads 0: a byte range that is no free-list metadata is
  changed.
\<close>

theorem free_of_small_block_leaves_its_block:
  "memfile_alloc almost_full sys_ok 0 = Some (Inr (edge_small, 4096)) \<and>
   memfile_free edge_small 4096 = Inl Fault \<and>
   memfile_alloc fresh_file sys_ok 0 =
     Some (Inr (set_hdr_allocated (fresh_file\<lparr>mem := wr64 (mem fresh_file) 32 8\<rparr>) 40, 40)) \<and>
   memfile_alloc (set_hdr_allocated (fresh_file\<lparr>mem := wr64 (mem fresh_file) 32 8\<rparr>) 40) sys_ok 0 =
     Some (Inr (two_small, 48)) \<and>
   rd64 (mem two_small) 40 = 8 \<and>
   map_sum id (\<lambda>mf. rd64 (mem mf) 40) (memfile_free two_small 40) = Inr 0"
  using edge_small_reached free_edge_small free_small_block_overwrites_neighbour by simp

end
